theory Spec2Isabelle
  imports Complex_Main "HOL-Library.Log_Nat"
begin

unbundle bit_operations_syntax

section \<open>cropgui\_common: the crop-region manager and the crop worker\<close>

text \<open>
  A shallow embedding of \<^verbatim>\<open>src/cropgui_common.py\<close>. Python integers are \<open>int\<close>.
  Python's \<^verbatim>\<open>//\<close> is floor division, which is \<open>div\<close> on \<open>int\<close> (both round towards
  minus infinity and give the remainder the sign of the divisor), except that Python
  raises \<^verbatim>\<open>ZeroDivisionError\<close> where HOL returns 0: that raise is a branch of the model.
  An exception is a value of the datatype \<open>error\<close>.
\<close>

datatype error = ZeroDivisionError | ValueError | AttributeError

subsection \<open>\<^verbatim>\<open>DragManagerBase.fix\<close> (lines 249--267)\<close>

text \<open>
  \<^verbatim>\<open>a, b = sorted((int(a), int(b)))\<close>: the arguments of the model are already integers,
  on which \<^verbatim>\<open>int\<close> is the identity; sorting a pair is \<open>min\<close> and \<open>max\<close>.
  The method is named \<open>fix_interval\<close> here, \<open>fix\<close> being a keyword of Isar.
  The bound \<^verbatim>\<open>lim\<close> is written \<open>lm\<close>, \<open>lim\<close> being a constant of analysis.
  It reads no attribute of \<^verbatim>\<open>self\<close> and assigns none.
\<close>

definition fix_interval :: "int \<Rightarrow> int \<Rightarrow> int \<Rightarrow> int \<Rightarrow> bool \<Rightarrow> error + (int \<times> int)" where
  "fix_interval a b lm r reverse =
     (let a1 = min a b; b1 = max a b in
      if r = 0 then Inl ZeroDivisionError
      else if reverse then
        (let a2 = lm - ((((lm - a1) + r - 1) div r) * r) in
         Inr (if a2 < 0 then a2 + r else a2, b1))
      else Inr ((a1 div r) * r, b1))"

subsection \<open>\<^verbatim>\<open>nextPowerOf2\<close> (lines 67--79)\<close>

text \<open>
  The argument is an integer or a finite float, both of which are rational numbers, so
  \<^verbatim>\<open>math.ceil(n)\<close> is the ceiling of a \<open>rat\<close>. Python integers are unbounded and
  \<^verbatim>\<open>>>\<close> is an arithmetic shift (\<open>drop_bit\<close> on \<open>int\<close>). The \<^verbatim>\<open>while\<close> loop may
  run forever, so it is a partial function: not returning is \<open>None\<close>.
\<close>

partial_function (option) shift_loop :: "int \<Rightarrow> nat \<Rightarrow> nat option" where
  "shift_loop ceiln count =
     (if ceiln \<noteq> 0 then shift_loop (drop_bit 1 ceiln) (count + 1) else Some count)"

declare shift_loop.simps [code]

definition nextPowerOf2 :: "rat \<Rightarrow> int option" where
  "nextPowerOf2 n =
     (let ceiln = \<lceil>n\<rceil> in
      if ceiln \<noteq> 0 \<and> \<not> (ceiln AND (ceiln - 1)) \<noteq> 0 then Some ceiln
      else map_option (\<lambda>count. push_bit count 1) (shift_loop ceiln 0))"

subsection \<open>\<^verbatim>\<open>get_cropspec\<close> (lines 82--98)\<close>

text \<open>
  \<^verbatim>\<open>"%d" % v\<close> on an integer: the decimal digits, after a minus sign when \<open>v\<close> is
  negative.
\<close>

definition digit :: "nat \<Rightarrow> char" where
  "digit d = ''0123456789'' ! d"

fun str_nat :: "nat \<Rightarrow> string" where
  "str_nat n = (if n < 10 then [digit n] else str_nat (n div 10) @ [digit (n mod 10)])"

declare str_nat.simps [simp del]

definition str_int :: "int \<Rightarrow> string" where
  "str_int v = (if v < 0 then ''-'' @ str_nat (nat (- v)) else str_nat (nat v))"

text \<open>The attributes of a PIL image that this file reads.\<close>

record pil_image =
  format :: string
  width :: int
  height :: int

definition get_cropspec :: "pil_image \<Rightarrow> int \<times> int \<times> int \<times> int \<Rightarrow> int \<Rightarrow> string" where
  "get_cropspec img corners rotation_int =
     (case corners of (t, l, r, b) \<Rightarrow>
        let w = r - l; h = b - t in
        if format img = ''JPEG'' \<or> format img = ''MPO''
        then str_int w @ ''fx'' @ str_int h @ ''f+'' @ str_int l @ ''+'' @ str_int t
        else str_int w @ ''x'' @ str_int h @ ''+'' @ str_int l @ ''+'' @ str_int t)"

subsection \<open>\<^verbatim>\<open>CropTask.runner\<close> (lines 136--187): the command built for one task\<close>

text \<open>
  \<^verbatim>\<open>CropRequest\<close> is a named tuple; its fields are read as \<^verbatim>\<open>task.image\<close> and so on.
\<close>

record CropRequest =
  task_image :: pil_image
  task_image_name :: string
  task_corners :: "int \<times> int \<times> int \<times> int"
  task_rotation :: int
  task_target :: string

text \<open>
  The body of the loop for a task that is not \<^verbatim>\<open>None\<close>, up to the value of
  \<^verbatim>\<open>command\<close> at line 184. \<open>windows\<close> stands for
  \<^verbatim>\<open>platform.system() == 'Windows'\<close>.
\<close>

definition runner_command :: "bool \<Rightarrow> CropRequest \<Rightarrow> string list" where
  "runner_command windows task =
     (let img = task_image task;
          image_name = task_image_name task;
          rotation_int = task_rotation task;
          target = task_target task
      in case task_corners task of (t, l, r, b) \<Rightarrow>
       let cropspec = get_cropspec img (task_corners task) rotation_int;
           rotation = (if rotation_int = 3 then ''180''
                       else if rotation_int = 6 then ''90''
                       else if rotation_int = 8 then ''270''
                       else ''none'')
       in
        if (r + b - l - t) = (width img + height img) \<and> rotation = ''none'' then
          (if windows then [''copy'', image_name, target]
           else [''nice'', ''cp'', image_name, target])
        else if format img = ''JPEG'' \<or> format img = ''MPO'' then
          (if windows then [''jpegtran''] else [''nice'', ''jpegtran''])
          @ (if rotation \<noteq> ''none'' then [''-rotate'', rotation] else [])
          @ [''-copy'', ''all'', ''-crop'', cropspec, ''-outfile'', target, image_name]
        else
          (if windows then [''magick''] else [''nice'', ''convert''])
          @ (if rotation \<noteq> ''none'' then [''-rotate'', rotation] else [])
          @ [image_name, ''-crop'', cropspec, ''+repage'', target])"

text \<open>The plain copy of lines 162--163.\<close>

definition copy_command :: "bool \<Rightarrow> CropRequest \<Rightarrow> string list" where
  "copy_command windows task =
     (if windows then [''copy'', task_image_name task, task_target task]
      else [''nice'', ''cp'', task_image_name task, task_target task])"


subsection \<open>\<^verbatim>\<open>DragManagerBase\<close>: the state\<close>

datatype drag =
    DRAG_NONE
  | DRAG_TL | DRAG_T | DRAG_TR
  | DRAG_L | DRAG_C | DRAG_R
  | DRAG_BL | DRAG_B | DRAG_BR

text \<open>
  The attributes of a manager on which an image has been set, so that \<^verbatim>\<open>_rotation\<close>
  (field \<open>rotation\<close>) is assigned, and to which the front end has given \<^verbatim>\<open>w\<close>,
  \<^verbatim>\<open>h\<close>, \<^verbatim>\<open>round_x\<close>, \<^verbatim>\<open>round_y\<close> and \<^verbatim>\<open>scale\<close>. The field \<open>scale\<close> holds
  \<^verbatim>\<open>int(self.scale)\<close>, the only form in which this file reads it. The fields
  \<open>x0\<close> to \<open>b0\<close>, \<open>state\<close> and \<open>fixed_ratio\<close> are those of the drag in progress.
  \<^verbatim>\<open>top\<close> is written \<open>top_edge\<close>, \<open>top\<close> being a constant of HOL.

  The last line of \<^verbatim>\<open>__init__\<close> reads \<^verbatim>\<open>self.prev_left = self=prev_right = 0\<close>, a chained
  assignment with the targets \<^verbatim>\<open>self.prev_left\<close>, \<^verbatim>\<open>self\<close> and \<^verbatim>\<open>prev_right\<close>: the
  attribute \<^verbatim>\<open>self.prev_right\<close> is not assigned until \<^verbatim>\<open>save_prev_crop\<close> runs. The field
  \<open>prev_right\<close> is therefore an option, \<open>None\<close> while the attribute does not exist.
  Pixel data, the derived bitmaps and the hooks \<^verbatim>\<open>image_set\<close> and \<^verbatim>\<open>render\<close> of the
  front end are not part of the state.
\<close>

record DragManagerBase =
  w :: int
  h :: int
  round_x :: int
  round_y :: int
  rotation :: int
  top_edge :: int
  left :: int
  right :: int
  bottom :: int
  prev_w :: int
  prev_h :: int
  prev_top :: int
  prev_bottom :: int
  prev_left :: int
  prev_right :: "int option"
  scale :: int
  x0 :: int
  y0 :: int
  t0 :: int
  l0 :: int
  r0 :: int
  b0 :: int
  state :: drag
  fixed_ratio :: bool

text \<open>
  A method either returns (\<open>Inr\<close> the manager after the call) or raises (\<open>Inl\<close> the
  exception and the manager as the assignments before the raise left it).
\<close>

type_synonym outcome = "error \<times> DragManagerBase + DragManagerBase"

definition state_of :: "outcome \<Rightarrow> DragManagerBase" where
  "state_of res = (case res of Inl (e, s) \<Rightarrow> s | Inr s \<Rightarrow> s)"

definition raised :: "outcome \<Rightarrow> error option" where
  "raised res = (case res of Inl (e, s) \<Rightarrow> Some e | Inr s \<Rightarrow> None)"

definition save_prev_crop :: "DragManagerBase \<Rightarrow> DragManagerBase" where
  "save_prev_crop s =
     s\<lparr>prev_w := w s, prev_h := h s, prev_top := top_edge s, prev_bottom := bottom s,
       prev_left := left s, prev_right := Some (right s)\<rparr>"

subsection \<open>\<^verbatim>\<open>image_or_rotation_changed\<close> (lines 232--247)\<close>

definition image_or_rotation_changed :: "DragManagerBase \<Rightarrow> outcome" where
  "image_or_rotation_changed s =
     (if w s = 0 \<or> w s \<noteq> prev_w s \<or> h s \<noteq> prev_h s then
        (case fix_interval 0 (h s) (h s) (round_y s) (rotation s = 3 \<or> rotation s = 8) of
           Inl e \<Rightarrow> Inl (e, s)
         | Inr (t, b) \<Rightarrow>
            let s1 = s\<lparr>top_edge := t, bottom := b\<rparr> in
            (case fix_interval 0 (w s1) (w s1) (round_x s1) (rotation s1 = 3 \<or> rotation s1 = 6) of
               Inl e \<Rightarrow> Inl (e, s1)
             | Inr (l, r) \<Rightarrow> Inr (s1\<lparr>left := l, right := r\<rparr>)))
      else
        (let s1 = s\<lparr>top_edge := prev_top s, bottom := prev_bottom s\<rparr> in
         case prev_right s1 of
           None \<Rightarrow> Inl (AttributeError, s1)
         | Some pr \<Rightarrow> Inr (s1\<lparr>left := prev_left s1, right := pr\<rparr>)))"

subsection \<open>\<^verbatim>\<open>get_corners\<close>, \<^verbatim>\<open>get_screencorners\<close>, \<^verbatim>\<open>set_crop\<close>\<close>

definition get_corners :: "DragManagerBase \<Rightarrow> int \<times> int \<times> int \<times> int" where
  "get_corners s = (top_edge s, left s, right s, bottom s)"

text \<open>
  Python's \<^verbatim>\<open>/\<close> on integers is float division. Here and in \<^verbatim>\<open>classify\<close> the
  quotient is written exactly: the quotient of two integers below \<open>2^53\<close> is rounded
  to the nearest double, which changes neither its comparison with an integer nor its
  truncation. \<^verbatim>\<open>int(x)\<close> on a float truncates towards zero.
\<close>

definition py_int :: "rat \<Rightarrow> int" where
  "py_int q = (if 0 \<le> q then \<lfloor>q\<rfloor> else \<lceil>q\<rceil>)"

definition get_screencorners :: "DragManagerBase \<Rightarrow> error + (int \<times> int \<times> int \<times> int)" where
  "get_screencorners s =
     (case get_corners s of (t, l, r, b) \<Rightarrow>
        if scale s = 0 then Inl ZeroDivisionError
        else Inr (py_int (of_int t / of_int (scale s)), py_int (of_int l / of_int (scale s)),
                  py_int (of_int r / of_int (scale s)), py_int (of_int b / of_int (scale s))))"

definition set_crop :: "DragManagerBase \<Rightarrow> int \<Rightarrow> int \<Rightarrow> int \<Rightarrow> int \<Rightarrow> outcome" where
  "set_crop s top' left' right' bottom' =
     (case fix_interval top' bottom' (h s) (round_y s) (rotation s = 3 \<or> rotation s = 8) of
        Inl e \<Rightarrow> Inl (e, s)
      | Inr (t, b) \<Rightarrow>
         let s1 = s\<lparr>top_edge := t, bottom := b\<rparr> in
         (case fix_interval left' right' (w s1) (round_x s1) (rotation s1 = 3 \<or> rotation s1 = 6) of
            Inl e \<Rightarrow> Inl (e, s1)
          | Inr (l, r) \<Rightarrow> Inr (s1\<lparr>left := l, right := r\<rparr>)))"

subsection \<open>\<^verbatim>\<open>classify\<close> and \<^verbatim>\<open>drag_start\<close> (lines 357--404)\<close>

text \<open>Pointer coordinates are integers; \<^verbatim>\<open>(r - l) / 4\<close> is a float, here a rational.\<close>

definition classify :: "DragManagerBase \<Rightarrow> int \<Rightarrow> int \<Rightarrow> error + drag" where
  "classify s x y =
     (case get_screencorners s of
        Inl e \<Rightarrow> Inl e
      | Inr (t, l, r, b) \<Rightarrow>
         let dx = (of_int (r - l) :: rat) / 4;
             dy = (of_int (b - t) :: rat) / 4
         in Inr (
           if x < l then DRAG_NONE
           else if x > r then DRAG_NONE
           else if y < t then DRAG_NONE
           else if y > b then DRAG_NONE
           else if of_int x < of_int l + dx then
             (if of_int y < of_int t + dy then DRAG_TL
              else if of_int y < of_int b - dy then DRAG_L
              else DRAG_BL)
           else if of_int x < of_int r - dx then
             (if of_int y < of_int t + dy then DRAG_T
              else if of_int y < of_int b - dy then DRAG_C
              else DRAG_B)
           else
             (if of_int y < of_int t + dy then DRAG_TR
              else if of_int y < of_int b - dy then DRAG_R
              else DRAG_BR)))"

definition drag_start :: "DragManagerBase \<Rightarrow> int \<Rightarrow> int \<Rightarrow> bool \<Rightarrow> outcome" where
  "drag_start s x y fixed =
     (let s1 = s\<lparr>x0 := x, y0 := y, t0 := top_edge s, l0 := left s,
                 r0 := right s, b0 := bottom s\<rparr> in
      case classify s1 x y of
        Inl e \<Rightarrow> Inl (e, s1)
      | Inr k \<Rightarrow>
         let s2 = s1\<lparr>state := k\<rparr> in
         if state s2 = DRAG_TL \<or> state s2 = DRAG_TR \<or> state s2 = DRAG_BL \<or> state s2 = DRAG_BR
         then Inr (s2\<lparr>fixed_ratio := fixed\<rparr>)
         else Inr (s2\<lparr>fixed_ratio := False\<rparr>))"

subsection \<open>\<^verbatim>\<open>drag_continue\<close> (lines 406--451)\<close>

text \<open>
  Lines 410--415 compute with floats. A double is a rational \<open>m * 2^e\<close> with
  \<open>\<bar>m\<bar> < 2^53\<close>; the conversion of an integer, the division and the multiplication
  return the double nearest to the exact result, a tie going to the even significand
  (IEEE 754, which CPython follows). \<open>fl\<close> is that rounding, \<open>ilog2\<close> the floor of
  the binary logarithm of a positive rational, from the bit lengths of its numerator and
  denominator. The exponent is not bounded here: the model is the source as long as no
  value leaves the range of the doubles, about \<open>10^308\<close> and \<open>10^-308\<close>.
  \<^verbatim>\<open>round\<close> on a float rounds to the nearest integer, a tie to the even one;
  negation, \<^verbatim>\<open>abs\<close> and the comparison of a float with an integer are exact.
\<close>

definition py_round :: "rat \<Rightarrow> int" where
  "py_round q =
     (let f = \<lfloor>q\<rfloor>; d = q - of_int f in
      if d < 1 / 2 then f
      else if 1 / 2 < d then f + 1
      else if even f then f else f + 1)"

definition ilog2 :: "rat \<Rightarrow> int" where
  "ilog2 x = (case quotient_of x of (n, d) \<Rightarrow>
                let k = bitlen n - bitlen d in if 2 powi k \<le> x then k else k - 1)"

definition fl :: "rat \<Rightarrow> rat" where
  "fl x = (if x = 0 then 0
           else let e = ilog2 \<bar>x\<bar> - 52; m = py_round (\<bar>x\<bar> / 2 powi e)
                in sgn x * of_int m * 2 powi e)"

definition float_of_int :: "int \<Rightarrow> rat" where
  "float_of_int n = fl (of_int n)"

definition fdiv :: "rat \<Rightarrow> rat \<Rightarrow> rat" where
  "fdiv a b = fl (a / b)"

definition fmul :: "rat \<Rightarrow> rat \<Rightarrow> rat" where
  "fmul a b = fl (a * b)"

text \<open>
  Lines 407--415: the pointer delta in image pixels, one axis derived from the other
  when the ratio is fixed. An integer operand of a float operation is converted first.
  Both divisions raise on a zero divisor.
\<close>

definition drag_deltas :: "DragManagerBase \<Rightarrow> int \<Rightarrow> int \<Rightarrow> error + (int \<times> int)" where
  "drag_deltas s x y =
     (let dx = (x - x0 s) * scale s;
          dy = (y - y0 s) * scale s
      in
      if fixed_ratio s then
        (if float_of_int (b0 s - t0 s) = 0 then Inl ZeroDivisionError
         else
           let ratio0 = fdiv (fmul (float_of_int (r0 s - l0 s)) 1) (float_of_int (b0 s - t0 s));
               ratio = (if state s = DRAG_TR \<or> state s = DRAG_BL then - ratio0 else ratio0)
           in
           if ratio = 0 then Inl ZeroDivisionError
           else if \<bar>fdiv (float_of_int dx) ratio\<bar> > \<bar>of_int dy\<bar>
             then Inr (dx, py_round (fdiv (float_of_int dx) ratio))
             else Inr (py_round (fmul (float_of_int dy) ratio), dy))
      else Inr (dx, dy))"

text \<open>Lines 416--434: the candidate edges, before they are kept inside the image.\<close>

definition drag_candidates ::
  "DragManagerBase \<Rightarrow> int \<Rightarrow> int \<Rightarrow> int \<times> int \<times> int \<times> int" where
  "drag_candidates s dx0 dy0 =
     (case get_corners s of (new_top0, new_left0, new_right0, new_bottom0) \<Rightarrow>
      let dx = (if state s = DRAG_C
                then (if dx0 > 0 then min dx0 (w s - r0 s) else max dx0 (- l0 s))
                else dx0);
          dy = (if state s = DRAG_C
                then (if dy0 > 0 then min dy0 (h s - b0 s) else max dy0 (- t0 s))
                else dy0);
          new_top = (if state s \<in> {DRAG_TL, DRAG_T, DRAG_TR, DRAG_C}
                     then t0 s + dy else new_top0);
          new_left = (if state s \<in> {DRAG_TL, DRAG_L, DRAG_BL, DRAG_C}
                      then l0 s + dx else new_left0);
          new_right = (if state s \<in> {DRAG_TR, DRAG_R, DRAG_BR, DRAG_C}
                       then r0 s + dx else new_right0);
          new_bottom = (if state s \<in> {DRAG_BL, DRAG_B, DRAG_BR, DRAG_C}
                        then b0 s + dy else new_bottom0)
      in (new_top, new_left, new_right, new_bottom))"

text \<open>Lines 435--449: the two clamping passes.\<close>

definition drag_clamp ::
  "DragManagerBase \<Rightarrow> int \<times> int \<times> int \<times> int \<Rightarrow> int \<times> int \<times> int \<times> int" where
  "drag_clamp s cand =
     (case cand of (new_top0, new_left0, new_right0, new_bottom0) \<Rightarrow>
      let new_top1 = (if new_top0 < 0 then 0 else new_top0);
          new_left1 = (if new_left0 < 0 then 0 else new_left0);
          new_right1 = (if new_right0 \<ge> w s then w s - 1 else new_right0);
          new_bottom1 = (if new_bottom0 \<ge> h s then h s - 1 else new_bottom0)
      in
      if state s \<noteq> DRAG_C then
        (min (bottom s - 1) new_top1, min (right s - 1) new_left1,
         max (left s + 1) new_right1, max (top_edge s + 1) new_bottom1)
      else (new_top1, new_left1, new_right1, new_bottom1))"

definition drag_continue :: "DragManagerBase \<Rightarrow> int \<Rightarrow> int \<Rightarrow> outcome" where
  "drag_continue s x y =
     (case drag_deltas s x y of
        Inl e \<Rightarrow> Inl (e, s)
      | Inr (dx, dy) \<Rightarrow>
         (case drag_clamp s (drag_candidates s dx dy) of
            (new_top, new_left, new_right, new_bottom) \<Rightarrow>
              set_crop s new_top new_left new_right new_bottom))"

subsection \<open>Rotation (lines 457--492)\<close>

definition flip_dimensions :: "DragManagerBase \<Rightarrow> DragManagerBase" where
  "flip_dimensions s = s\<lparr>w := h s, h := w s, round_x := round_y s, round_y := round_x s\<rparr>"

text \<open>
  \<^verbatim>\<open>rotation\<close> is a property: assigning \<^verbatim>\<open>self.rotation\<close> calls \<^verbatim>\<open>set_rotation\<close>.
\<close>

definition set_rotation :: "DragManagerBase \<Rightarrow> int \<Rightarrow> outcome" where
  "set_rotation s rot =
     (if rot \<notin> {1, 3, 6, 8} then Inl (ValueError, s)
      else image_or_rotation_changed (s\<lparr>rotation := rot\<rparr>))"

definition rotate_cw :: "DragManagerBase \<Rightarrow> outcome" where
  "rotate_cw s =
     (let s1 = flip_dimensions s;
          r = rotation s1;
          r' = (if r = 1 then 6 else if r = 6 then 3 else if r = 3 then 8
                else if r = 8 then 1 else r)
      in set_rotation s1 r')"

subsection \<open>Notions used in the properties\<close>

text \<open>
  A rectangle of width \<open>w1\<close> and height \<open>h1\<close> keeps the ratio of one of width
  \<open>w0\<close> and height \<open>h0\<close> within rounding: one of its dimensions is the other one
  scaled by the ratio, up to the half pixel of \<^verbatim>\<open>round\<close> and the \<open>2^-49\<close> part of the
  scaled change that the double arithmetic of lines 410--415 can lose.
\<close>

definition ratio_kept :: "int \<Rightarrow> int \<Rightarrow> int \<Rightarrow> int \<Rightarrow> bool" where
  "ratio_kept w0 h0 w1 h1 =
     (let ratio = (of_int w0 :: rat) / of_int h0 in
      \<bar>of_int h1 - of_int w1 / ratio\<bar> \<le> 1 / 2 + \<bar>of_int (w1 - w0) / ratio\<bar> / 2 ^ 49
      \<or> \<bar>of_int w1 - of_int h1 * ratio\<bar> \<le> 1 / 2 + \<bar>of_int (h1 - h0) * ratio\<bar> / 2 ^ 49)"

text \<open>
  A factor that \<open>k\<close> roundings to a double can leave on a product or quotient.
\<close>

definition ulp_ratio :: rat where
  "ulp_ratio = (2 ^ 53 + 1) / (2 ^ 53 - 1)"

definition within_ulps :: "nat \<Rightarrow> rat \<Rightarrow> bool" where
  "within_ulps k f = (1 / ulp_ratio ^ k \<le> f \<and> f \<le> ulp_ratio ^ k)"

text \<open>
  An edge lies on the grid of \<^verbatim>\<open>fix\<close>: counted from 0, or from \<open>lm\<close> when the upper
  bound is the origin.
\<close>

definition on_grid :: "int \<Rightarrow> int \<Rightarrow> bool \<Rightarrow> int \<Rightarrow> bool" where
  "on_grid lm r reverse a = (if reverse then r dvd (lm - a) else r dvd a)"

text \<open>
  The top and left edges of a candidate rectangle lie on the grids that \<^verbatim>\<open>set_crop\<close>
  aligns them to.
\<close>

definition candidates_on_grid :: "DragManagerBase \<Rightarrow> int \<times> int \<times> int \<times> int \<Rightarrow> bool" where
  "candidates_on_grid s cand =
     (case cand of (t, l, r, b) \<Rightarrow>
        on_grid (h s) (round_y s) (rotation s = 3 \<or> rotation s = 8) t
        \<and> on_grid (w s) (round_x s) (rotation s = 3 \<or> rotation s = 6) l)"

text \<open>
  The snapshot and the pointer deltas are far inside the range of the doubles, so that
  no conversion, quotient or product of lines 410--415 overflows or is subnormal: there
  \<open>fl\<close> is the rounding of the machine.
\<close>

definition in_double_range :: "DragManagerBase \<Rightarrow> int \<Rightarrow> int \<Rightarrow> bool" where
  "in_double_range s x y =
     (\<bar>r0 s - l0 s\<bar> < 2 ^ 500 \<and> \<bar>b0 s - t0 s\<bar> < 2 ^ 500
      \<and> \<bar>(x - x0 s) * scale s\<bar> < 2 ^ 500 \<and> \<bar>(y - y0 s) * scale s\<bar> < 2 ^ 500)"

text \<open>
  The edges that the drag in progress does not move are where they were at
  \<^verbatim>\<open>drag_start\<close>.
\<close>

definition unmoved_at_snapshot :: "DragManagerBase \<Rightarrow> bool" where
  "unmoved_at_snapshot s =
     ((state s \<in> {DRAG_TL, DRAG_T, DRAG_TR} \<longrightarrow> bottom s = b0 s)
      \<and> (state s \<in> {DRAG_BL, DRAG_B, DRAG_BR} \<longrightarrow> top_edge s = t0 s)
      \<and> (state s \<in> {DRAG_TL, DRAG_L, DRAG_BL} \<longrightarrow> right s = r0 s)
      \<and> (state s \<in> {DRAG_TR, DRAG_R, DRAG_BR} \<longrightarrow> left s = l0 s))"

subsection \<open>Example inputs\<close>

text \<open>A crop job over the whole of a 10 by 10 PNG image, with a given rotation code.\<close>

definition png_task :: "int \<Rightarrow> CropRequest" where
  "png_task rot = \<lparr>task_image = \<lparr>format = ''PNG'', width = 10, height = 10\<rparr>,
     task_image_name = ''a.png'', task_corners = (0, 0, 10, 10), task_rotation = rot,
     task_target = ''a-crop.jpg''\<rparr>"

text \<open>
  A 10 by 10 image without block constraint, shown whole at scale 1, before any
  \<^verbatim>\<open>save_prev_crop\<close>.
\<close>

definition manager0 :: DragManagerBase where
  "manager0 = \<lparr>w = 10, h = 10, round_x = 1, round_y = 1, rotation = 1,
     top_edge = 0, left = 0, right = 10, bottom = 10,
     prev_w = 0, prev_h = 0, prev_top = 0, prev_bottom = 0, prev_left = 0, prev_right = None,
     scale = 1, x0 = 0, y0 = 0, t0 = 0, l0 = 0, r0 = 0, b0 = 0,
     state = DRAG_NONE, fixed_ratio = False\<rparr>"

text \<open>A 100 by 60 JPEG with 16 by 8 blocks.\<close>

definition manager_jpeg :: DragManagerBase where
  "manager_jpeg = manager0\<lparr>w := 100, h := 60, round_x := 16, round_y := 8,
      top_edge := 0, left := 0, right := 100, bottom := 60\<rparr>"

text \<open>A 10 by 10 JPEG with 8 by 8 blocks, turned by 180 degrees.\<close>

definition manager_small :: DragManagerBase where
  "manager_small = manager0\<lparr>round_x := 8, round_y := 8, rotation := 3\<rparr>"

text \<open>A 100 by 100 image without block constraint, with a given selection.\<close>

definition manager_photo :: "int \<Rightarrow> int \<Rightarrow> int \<Rightarrow> int \<Rightarrow> DragManagerBase" where
  "manager_photo t l r b =
     manager0\<lparr>w := 100, h := 100, top_edge := t, left := l, right := r, bottom := b\<rparr>"

section \<open>Properties\<close>

subsection \<open>Alignment of the anchored edge\<close>

lemma fix_interval_Inr_nonzero:
  "fix_interval a b lm r reverse = Inr p \<Longrightarrow> r \<noteq> 0"
  by (auto simp: fix_interval_def Let_def split: if_splits)

lemma fix_interval_snd:
  "fix_interval a b lm r reverse = Inr (a', b') \<Longrightarrow> b' = max a b"
  by (auto simp: fix_interval_def Let_def split: if_splits)

lemma fix_interval_forward:
  "r \<noteq> 0 \<Longrightarrow> fix_interval a b lm r False = Inr ((min a b div r) * r, max a b)"
  by (simp add: fix_interval_def Let_def)

lemma reverse_step_lower:
  fixes r :: int
  assumes "0 < r" "0 \<le> a"
  shows "- r < lm - (((lm - a) + r - 1) div r) * r"
proof -
  define n where "n = (lm - a) + r - 1"
  have "(n div r) * r + n mod r = n" by simp
  moreover have "0 \<le> n mod r" using assms(1) by simp
  ultimately have "(n div r) * r \<le> n" by linarith
  hence "lm - (n div r) * r \<ge> lm - n" by simp
  moreover have "lm - n = a - r + 1" by (simp add: n_def)
  ultimately show ?thesis using assms(2) by (simp add: n_def)
qed

text \<open>
  C3 (counterexample). With the upper bound as origin the anchored edge is aligned to
  the grid counted from \<open>lm\<close>, not from 0: for a 10 pixel axis and granularity 8 the
  full interval is anchored at 2. A negative edge stays negative with the lower origin,
  and in the reverse case one added step does not always reach 0.
\<close>

theorem fix_interval_not_multiple_or_negative:
  "fix_interval 0 10 10 8 True = Inr (2, 10) \<and> \<not> (8::int) dvd 2
   \<and> fix_interval (-5) 3 10 8 False = Inr (-8, 3)
   \<and> fix_interval (-20) 0 10 8 True = Inr (-14, 0)"
  by (simp add: fix_interval_def Let_def)

text \<open>
  C3 (amended). Whenever \<open>fix\<close> returns, the anchored edge lies on the granularity grid
  counted from the chosen origin: it is a multiple of the granularity when reverse is
  false, and its distance to \<open>lm\<close> is a multiple when reverse is true (so the edge itself
  is a multiple as soon as \<open>lm\<close> is one). For a positive granularity and a non-negative
  interval the anchored edge is never negative: in the reverse case the one added
  granularity step is enough.
\<close>

theorem fix_interval_aligned:
  assumes "fix_interval a b lm r reverse = Inr (a', b')"
  shows "(if reverse then r dvd (lm - a') else r dvd a')
       \<and> (r dvd lm \<longrightarrow> r dvd a')
       \<and> (0 < r \<and> 0 \<le> a \<and> 0 \<le> b \<longrightarrow> 0 \<le> a')"
proof -
  have r0: "r \<noteq> 0" using assms by (rule fix_interval_Inr_nonzero)
  show ?thesis
  proof (cases reverse)
    case False
    with assms r0 have a': "a' = (min a b div r) * r"
      by (simp add: fix_interval_forward)
    have "0 < r \<Longrightarrow> 0 \<le> a \<Longrightarrow> 0 \<le> b \<Longrightarrow> 0 \<le> a'"
      unfolding a' by (simp add: pos_imp_zdiv_nonneg_iff)
    with False a' show ?thesis by simp
  next
    case True
    define a2 where "a2 = lm - ((((lm - min a b) + r - 1) div r) * r)"
    from assms r0 True have a': "a' = (if a2 < 0 then a2 + r else a2)"
      by (auto simp: fix_interval_def Let_def a2_def split: if_splits)
    have d2: "r dvd (lm - a2)" by (simp add: a2_def)
    have d: "r dvd (lm - a')"
    proof (cases "a2 < 0")
      case True
      have "lm - (a2 + r) = (lm - a2) - r" by simp
      with d2 have "r dvd (lm - (a2 + r))" by (simp only: dvd_diff dvd_refl)
      with True a' show ?thesis by simp
    next
      case False
      with d2 a' show ?thesis by simp
    qed
    have m: "r dvd lm \<Longrightarrow> r dvd a'"
    proof -
      assume "r dvd lm"
      from this d have "r dvd (lm - (lm - a'))" by (rule dvd_diff)
      thus "r dvd a'" by simp
    qed
    have n: "0 < r \<Longrightarrow> 0 \<le> a \<Longrightarrow> 0 \<le> b \<Longrightarrow> 0 \<le> a'"
    proof -
      assume h: "0 < r" "0 \<le> a" "0 \<le> b"
      hence "0 \<le> min a b" by simp
      with h(1) have "- r < a2" unfolding a2_def by (rule reverse_step_lower)
      with a' show "0 \<le> a'" by (simp split: if_splits)
    qed
    from True d m n show ?thesis by simp
  qed
qed

theorem fix_interval_aligned_witness:
  "fix_interval 0 10 10 8 True = Inr (2, 10)
   \<and> (8::int) dvd (10 - 2) \<and> (0::int) \<le> 2
   \<and> fix_interval 13 40 40 8 False = Inr (8, 40) \<and> (8::int) dvd 8"
  using fix_interval_aligned [of 0 10 10 8 True 2 10]
        fix_interval_aligned [of 13 40 40 8 False 8 40]
  by (simp add: fix_interval_def Let_def)

subsection \<open>Termination of \<^verbatim>\<open>nextPowerOf2\<close>\<close>

lemma shift_loop_terminates:
  "0 \<le> c \<Longrightarrow> \<exists>y. shift_loop c k = Some y"
proof (induction "nat c" arbitrary: c k rule: less_induct)
  case less
  show ?case
  proof (cases "c = 0")
    case True
    then show ?thesis by (subst shift_loop.simps) simp
  next
    case False
    with less.prems have "0 < c" by simp
    hence "nat (drop_bit 1 c) < nat c" "0 \<le> drop_bit 1 c"
      by (simp_all add: drop_bit_eq_div)
    from less.hyps [OF this] obtain y where "shift_loop (drop_bit 1 c) (k + 1) = Some y"
      by blast
    with False show ?thesis by (subst shift_loop.simps) simp
  qed
qed

lemma shift_loop_nonneg:
  assumes ret: "shift_loop c k = Some y"
  shows "0 \<le> c"
proof (rule shift_loop.raw_induct [where P = "\<lambda>c k y. 0 \<le> c", OF _ ret])
  fix f :: "int \<Rightarrow> nat \<Rightarrow> nat option" and c :: int and k y :: nat
  assume IH: "\<And>c k y. f c k = Some y \<Longrightarrow> 0 \<le> c"
    and body: "(if c \<noteq> 0 then f (drop_bit 1 c) (k + 1) else Some k) = Some y"
  show "0 \<le> c"
  proof (cases "c = 0")
    case True
    then show ?thesis by simp
  next
    case False
    with body have "f (drop_bit 1 c) (k + 1) = Some y" by simp
    hence "0 \<le> drop_bit 1 c" by (rule IH)
    thus ?thesis by (simp add: drop_bit_eq_div)
  qed
qed

lemma and_pred_negative:
  fixes c :: int
  assumes "c < 0"
  shows "c AND (c - 1) \<noteq> 0"
proof
  assume z: "c AND (c - 1) = 0"
  from assms have "c AND (c - 1) < 0" by simp
  with z show False by simp
qed

text \<open>
  C9. \<^verbatim>\<open>nextPowerOf2\<close> returns exactly on the inputs whose ceiling is not negative:
  from a non-negative value the shift loop reaches 0, and from a negative one it never
  does (an arithmetic shift keeps the sign, and no negative value passes the
  power-of-two test of line 72).
\<close>

theorem nextPowerOf2_terminates_iff:
  "(\<exists>y. nextPowerOf2 n = Some y) \<longleftrightarrow> 0 \<le> \<lceil>n\<rceil>"
proof
  assume "\<exists>y. nextPowerOf2 n = Some y"
  then obtain y where y: "nextPowerOf2 n = Some y" ..
  show "0 \<le> \<lceil>n\<rceil>"
  proof (rule ccontr)
    assume "\<not> 0 \<le> \<lceil>n\<rceil>"
    hence neg: "\<lceil>n\<rceil> < 0" by simp
    hence "\<lceil>n\<rceil> AND (\<lceil>n\<rceil> - 1) \<noteq> 0" by (rule and_pred_negative)
    with y obtain c where "shift_loop \<lceil>n\<rceil> 0 = Some c"
      by (auto simp: nextPowerOf2_def Let_def split: if_splits)
    hence "0 \<le> \<lceil>n\<rceil>" by (rule shift_loop_nonneg)
    with neg show False by simp
  qed
next
  assume "0 \<le> \<lceil>n\<rceil>"
  then obtain c where "shift_loop \<lceil>n\<rceil> 0 = Some c"
    using shift_loop_terminates by blast
  thus "\<exists>y. nextPowerOf2 n = Some y"
    by (simp add: nextPowerOf2_def Let_def)
qed

theorem nextPowerOf2_terminates_iff_witness:
  "(\<exists>y. nextPowerOf2 5 = Some y) \<and> nextPowerOf2 (-3) = None"
  using nextPowerOf2_terminates_iff [of 5] nextPowerOf2_terminates_iff [of "-3"]
  by simp

subsection \<open>The crop specification\<close>

lemma digit_in: "d < 10 \<Longrightarrow> digit d \<in> set ''0123456789''"
  unfolding digit_def by (rule nth_mem) simp

lemma digit_not_f: "d < 10 \<Longrightarrow> digit d \<noteq> CHR ''f''"
proof -
  assume "d < 10"
  hence "digit d \<in> set ''0123456789''" by (rule digit_in)
  moreover have "CHR ''f'' \<notin> set ''0123456789''" by simp
  ultimately show ?thesis by metis
qed

lemma str_nat_no_f: "CHR ''f'' \<notin> set (str_nat n)"
proof (induction n rule: str_nat.induct)
  case (1 n)
  show ?case
  proof (cases "n < 10")
    case True
    hence "digit n \<noteq> CHR ''f''" by (rule digit_not_f)
    with True show ?thesis by (subst str_nat.simps) auto
  next
    case False
    have "n mod 10 < 10" by simp
    hence "digit (n mod 10) \<noteq> CHR ''f''" by (rule digit_not_f)
    with False 1 show ?thesis by (subst str_nat.simps) auto
  qed
qed

lemma str_int_no_f [simp]: "CHR ''f'' \<notin> set (str_int v)"
  by (simp add: str_int_def str_nat_no_f)

lemma count_f_str_int [simp]: "count_list (str_int v) CHR ''f'' = 0"
  by (simp add: count_list_0_iff)

text \<open>
  C7. For every image and every corner tuple \<open>(t, l, r, b)\<close> the crop specification
  is \<open>WfxHf+L+T\<close> when the format is JPEG or MPO and \<open>WxH+L+T\<close> otherwise, with
  \<open>W = r - l\<close> and \<open>H = b - t\<close>. The decimal fields contain no \<open>f\<close>, so the
  result carries the letter exactly twice in the first case and never in the second.
\<close>

theorem get_cropspec_suffix:
  "get_cropspec img (t, l, r, b) rot =
     (if format img = ''JPEG'' \<or> format img = ''MPO''
      then str_int (r - l) @ ''fx'' @ str_int (b - t) @ ''f+'' @ str_int l @ ''+'' @ str_int t
      else str_int (r - l) @ ''x'' @ str_int (b - t) @ ''+'' @ str_int l @ ''+'' @ str_int t)
   \<and> count_list (get_cropspec img (t, l, r, b) rot) CHR ''f'' =
       (if format img = ''JPEG'' \<or> format img = ''MPO'' then 2 else 0)"
  by (simp add: get_cropspec_def Let_def)

lemma str_int_examples: "str_int 640 = ''640'' \<and> str_int 0 = ''0'' \<and> str_int 16 = ''16'' \<and> str_int (-5) = ''-5'' \<and> str_int 480 = ''480''"
  by code_simp

theorem get_cropspec_suffix_witness:
  "get_cropspec \<lparr>format = ''JPEG'', width = 800, height = 600\<rparr> (0, 16, 656, 480) 1 = ''640fx480f+16+0''
   \<and> get_cropspec \<lparr>format = ''PNG'', width = 800, height = 600\<rparr> (0, 16, 656, 480) 1 = ''640x480+16+0''"
  using get_cropspec_suffix [of "\<lparr>format = ''JPEG'', width = 800, height = 600\<rparr>" 0 16 656 480 1]
        get_cropspec_suffix [of "\<lparr>format = ''PNG'', width = 800, height = 600\<rparr>" 0 16 656 480 1]
        str_int_examples
  by simp

subsection \<open>The command of the worker\<close>

lemma runner_command_copy_branch:
  assumes "task_corners task = (t, l, r, b)"
    and "r + b - l - t = width (task_image task) + height (task_image task)"
    and "task_rotation task \<noteq> 3" "task_rotation task \<noteq> 6" "task_rotation task \<noteq> 8"
  shows "runner_command windows task = copy_command windows task"
  using assms by (simp add: runner_command_def copy_command_def Let_def)

lemma runner_command_tool_branch:
  assumes "task_corners task = (t, l, r, b)"
    and "r + b - l - t \<noteq> width (task_image task) + height (task_image task)
         \<or> task_rotation task = 3 \<or> task_rotation task = 6 \<or> task_rotation task = 8"
  shows "4 < length (runner_command windows task)
       \<and> (\<exists>tool \<in> {''jpegtran'', ''convert'', ''magick''}. tool \<in> set (take 2 (runner_command windows task)))"
  using assms by (auto simp: runner_command_def Let_def)

lemma copy_command_length: "length (copy_command windows task) \<le> 4"
  by (simp add: copy_command_def)

lemma full_bounds_iff:
  fixes l r t b W H :: int
  assumes "0 \<le> l" "l < r" "r \<le> W" "0 \<le> t" "t < b" "b \<le> H"
  shows "r + b - l - t = W + H \<longleftrightarrow> l = 0 \<and> t = 0 \<and> r = W \<and> b = H"
  using assms by auto

lemma runner_command_copy_cases:
  assumes "task_corners task = (t, l, r, b)"
    and "0 \<le> l" "l < r" "r \<le> width (task_image task)"
    and "0 \<le> t" "t < b" "b \<le> height (task_image task)"
  shows "runner_command windows task = copy_command windows task
         \<longleftrightarrow> (l = 0 \<and> t = 0 \<and> r = width (task_image task) \<and> b = height (task_image task))
              \<and> task_rotation task \<notin> {3, 6, 8}"
proof -
  let ?full = "r + b - l - t = width (task_image task) + height (task_image task)"
  have fb: "?full \<longleftrightarrow> l = 0 \<and> t = 0 \<and> r = width (task_image task) \<and> b = height (task_image task)"
    using assms(2-7) by (rule full_bounds_iff)
  show ?thesis
  proof (cases "?full \<and> task_rotation task \<notin> {3, 6, 8}")
    case True
    hence "runner_command windows task = copy_command windows task"
      using assms(1) by (intro runner_command_copy_branch) auto
    with True fb show ?thesis by simp
  next
    case False
    hence "4 < length (runner_command windows task)"
      using runner_command_tool_branch [OF assms(1), of windows] by auto
    hence "runner_command windows task \<noteq> copy_command windows task"
      using copy_command_length [of windows task] by auto
    with False fb show ?thesis by auto
  qed
qed

text \<open>
  C4. For a job whose corners satisfy \<open>0 \<le> l < r \<le> width\<close> and
  \<open>0 \<le> t < b \<le> height\<close> and whose rotation is one of the four codes 1, 3, 6, 8,
  the worker builds the plain copy command, and not a jpegtran or convert command, if
  and only if the rectangle is the full image and the rotation code is 1.
\<close>

theorem runner_command_copy_iff:
  assumes "task_corners task = (t, l, r, b)"
    and "0 \<le> l" "l < r" "r \<le> width (task_image task)"
    and "0 \<le> t" "t < b" "b \<le> height (task_image task)"
    and "task_rotation task \<in> {1, 3, 6, 8}"
  shows "runner_command windows task = copy_command windows task
         \<longleftrightarrow> (l = 0 \<and> t = 0 \<and> r = width (task_image task) \<and> b = height (task_image task))
              \<and> task_rotation task = 1"
proof -
  have "task_rotation task \<notin> {3, 6, 8} \<longleftrightarrow> task_rotation task = 1"
    using assms(8) by auto
  with runner_command_copy_cases [OF assms(1-7), of windows] show ?thesis by simp
qed

theorem runner_command_copy_iff_witness:
  "runner_command False (png_task 1) = copy_command False (png_task 1)
   \<and> runner_command False (png_task 6) \<noteq> copy_command False (png_task 6)"
  using runner_command_copy_iff [of "png_task 1" 0 0 10 10 False]
        runner_command_copy_iff [of "png_task 6" 0 0 10 10 False]
  by (simp add: png_task_def)

subsection \<open>Image and rotation changes\<close>

lemma fix_interval_full:
  assumes "0 < r" "0 \<le> n"
  shows "fix_interval 0 n n r reverse = Inr (if reverse then n mod r else 0, n)"
proof (cases reverse)
  case False
  with assms show ?thesis by (simp add: fix_interval_def Let_def)
next
  case True
  define a2 where "a2 = n - ((n + r - 1) div r) * r"
  have a2: "(if a2 < 0 then a2 + r else a2) = n mod r"
  proof (cases "n mod r = 0")
    case z: True
    then obtain k where k: "n = k * r" by (metis dvd_def mod_0_imp_dvd mult.commute)
    have "(k * r + (r - 1)) div r = k" using assms(1) by simp
    hence "(n + r - 1) div r = k" by (simp add: k add_diff_eq)
    thus ?thesis using z by (simp add: a2_def k)
  next
    case nz: False
    have pos: "0 < n mod r" using nz assms(1)
      by (metis less_le pos_mod_sign)
    have lt: "n mod r < r" using assms(1) by simp
    have e: "n + r - 1 = (n div r + 1) * r + (n mod r - 1)"
      by (simp add: algebra_simps)
    have "(n mod r - 1) div r = 0"
      using pos lt by (intro div_pos_pos_trivial) auto
    hence d: "((n div r + 1) * r + (n mod r - 1)) div r = n div r + 1"
      using assms(1) by simp
    have "(n + r - 1) div r = n div r + 1" unfolding e by (rule d)
    hence "a2 = n - (n div r + 1) * r" by (simp add: a2_def)
    also have "\<dots> = n mod r - r" by (simp add: algebra_simps minus_div_mult_eq_mod [symmetric])
    finally have "a2 = n mod r - r" .
    with lt show ?thesis by simp
  qed
  from assms True have "fix_interval 0 n n r reverse = Inr (if a2 < 0 then a2 + r else a2, n)"
    by (simp add: fix_interval_def Let_def a2_def)
  with a2 True show ?thesis by simp
qed

lemma fix_interval_returns:
  "r \<noteq> 0 \<Longrightarrow> \<exists>a' b'. fix_interval a b lm r reverse = Inr (a', b')"
  by (simp add: fix_interval_def Let_def)

lemma image_or_rotation_changed_reuse:
  assumes "w s \<noteq> 0" "w s = prev_w s" "h s = prev_h s" "prev_right s = Some pr"
  shows "image_or_rotation_changed s =
           Inr (s\<lparr>top_edge := prev_top s, bottom := prev_bottom s,
                   left := prev_left s, right := pr\<rparr>)"
  using assms by (simp add: image_or_rotation_changed_def Let_def)

lemma image_or_rotation_changed_reset:
  assumes "w s = 0 \<or> w s \<noteq> prev_w s \<or> h s \<noteq> prev_h s"
    and "fix_interval 0 (h s) (h s) (round_y s) (rotation s = 3 \<or> rotation s = 8) = Inr (t, b)"
    and "fix_interval 0 (w s) (w s) (round_x s) (rotation s = 3 \<or> rotation s = 6) = Inr (l, r)"
  shows "image_or_rotation_changed s = Inr (s\<lparr>top_edge := t, bottom := b, left := l, right := r\<rparr>)"
  using assms by (auto simp add: image_or_rotation_changed_def Let_def)


text \<open>
  After \<^verbatim>\<open>save_prev_crop\<close> on an image of non-zero width, a change of image or
  rotation that keeps the dimensions keeps the rectangle.
\<close>

lemma save_prev_crop_keeps_crop:
  assumes "w s \<noteq> 0"
  shows "image_or_rotation_changed (save_prev_crop s) = Inr (save_prev_crop s)"
  using assms by (simp add: image_or_rotation_changed_def save_prev_crop_def Let_def)

text \<open>
  C8. On an image or rotation change, when the width is not zero and width and height
  equal the saved ones, the saved rectangle is taken as it is and nothing else changes
  (the saved right edge exists whenever \<^verbatim>\<open>save_prev_crop\<close> has run). Otherwise the
  rectangle is what \<open>fix\<close> returns for the whole of each axis, with the upper bound as
  origin for the rotations 3 and 8 on the vertical axis and 3 and 6 on the horizontal
  one; for positive granularities these are the full aligned bounds.
\<close>

theorem image_or_rotation_changed_policy:
  "(w s \<noteq> 0 \<and> w s = prev_w s \<and> h s = prev_h s \<and> prev_right s = Some pr \<longrightarrow>
      image_or_rotation_changed s =
        Inr (s\<lparr>top_edge := prev_top s, bottom := prev_bottom s,
                left := prev_left s, right := pr\<rparr>))
   \<and> (\<not> (w s \<noteq> 0 \<and> w s = prev_w s \<and> h s = prev_h s)
        \<and> fix_interval 0 (h s) (h s) (round_y s) (rotation s \<in> {3, 8}) = Inr (t, b)
        \<and> fix_interval 0 (w s) (w s) (round_x s) (rotation s \<in> {3, 6}) = Inr (l, r) \<longrightarrow>
      image_or_rotation_changed s =
        Inr (s\<lparr>top_edge := t, bottom := b, left := l, right := r\<rparr>))
   \<and> (\<not> (w s \<noteq> 0 \<and> w s = prev_w s \<and> h s = prev_h s)
        \<and> 0 < round_x s \<and> 0 < round_y s \<and> 0 \<le> w s \<and> 0 \<le> h s \<longrightarrow>
      image_or_rotation_changed s =
        Inr (s\<lparr>top_edge := (if rotation s \<in> {3, 8} then h s mod round_y s else 0),
                bottom := h s,
                left := (if rotation s \<in> {3, 6} then w s mod round_x s else 0),
                right := w s\<rparr>))"
proof (intro conjI impI)
  assume "w s \<noteq> 0 \<and> w s = prev_w s \<and> h s = prev_h s \<and> prev_right s = Some pr"
  thus "image_or_rotation_changed s =
        Inr (s\<lparr>top_edge := prev_top s, bottom := prev_bottom s,
                left := prev_left s, right := pr\<rparr>)"
    by (intro image_or_rotation_changed_reuse) simp_all
next
  assume a: "\<not> (w s \<noteq> 0 \<and> w s = prev_w s \<and> h s = prev_h s)
        \<and> fix_interval 0 (h s) (h s) (round_y s) (rotation s \<in> {3, 8}) = Inr (t, b)
        \<and> fix_interval 0 (w s) (w s) (round_x s) (rotation s \<in> {3, 6}) = Inr (l, r)"
  show "image_or_rotation_changed s =
        Inr (s\<lparr>top_edge := t, bottom := b, left := l, right := r\<rparr>)"
    by (rule image_or_rotation_changed_reset) (use a in auto)
next
  assume a: "\<not> (w s \<noteq> 0 \<and> w s = prev_w s \<and> h s = prev_h s)
        \<and> 0 < round_x s \<and> 0 < round_y s \<and> 0 \<le> w s \<and> 0 \<le> h s"
  have 1: "fix_interval 0 (h s) (h s) (round_y s) (rotation s = 3 \<or> rotation s = 8)
        = Inr (if rotation s \<in> {3, 8} then h s mod round_y s else 0, h s)"
    using a fix_interval_full [of "round_y s" "h s" "rotation s = 3 \<or> rotation s = 8"] by simp
  have 2: "fix_interval 0 (w s) (w s) (round_x s) (rotation s = 3 \<or> rotation s = 6)
        = Inr (if rotation s \<in> {3, 6} then w s mod round_x s else 0, w s)"
    using a fix_interval_full [of "round_x s" "w s" "rotation s = 3 \<or> rotation s = 6"] by simp
  show "image_or_rotation_changed s =
        Inr (s\<lparr>top_edge := (if rotation s \<in> {3, 8} then h s mod round_y s else 0),
                bottom := h s,
                left := (if rotation s \<in> {3, 6} then w s mod round_x s else 0),
                right := w s\<rparr>)"
    by (rule image_or_rotation_changed_reset [OF _ 1 2]) (use a in auto)
qed

theorem image_or_rotation_changed_policy_witness:
  "image_or_rotation_changed
      (manager0\<lparr>prev_w := 10, prev_h := 10, prev_top := 2, prev_bottom := 7,
                 prev_left := 3, prev_right := Some 9\<rparr>)
     = Inr (manager0\<lparr>prev_w := 10, prev_h := 10, prev_top := 2, prev_bottom := 7,
                 prev_left := 3, prev_right := Some 9,
                 top_edge := 2, bottom := 7, left := 3, right := 9\<rparr>)
   \<and> image_or_rotation_changed
        (manager0\<lparr>w := 20, h := 10, round_x := 8, round_y := 8, rotation := 3\<rparr>)
     = Inr (manager0\<lparr>w := 20, h := 10, round_x := 8, round_y := 8, rotation := 3,
                      top_edge := 2, bottom := 10, left := 4, right := 20\<rparr>)"
  using image_or_rotation_changed_policy
          [of "manager0\<lparr>prev_w := 10, prev_h := 10, prev_top := 2, prev_bottom := 7,
                 prev_left := 3, prev_right := Some 9\<rparr>" 9 0 0 0 0]
        image_or_rotation_changed_policy
          [of "manager0\<lparr>w := 20, h := 10, round_x := 8, round_y := 8, rotation := 3\<rparr>" 0 2 10 4 20]
  by (simp add: manager0_def fix_interval_def Let_def)


lemma image_or_rotation_changed_frame:
  "w (state_of (image_or_rotation_changed s)) = w s"
  "h (state_of (image_or_rotation_changed s)) = h s"
  "round_x (state_of (image_or_rotation_changed s)) = round_x s"
  "round_y (state_of (image_or_rotation_changed s)) = round_y s"
  "rotation (state_of (image_or_rotation_changed s)) = rotation s"
  "prev_w (state_of (image_or_rotation_changed s)) = prev_w s"
  "prev_h (state_of (image_or_rotation_changed s)) = prev_h s"
  "prev_right (state_of (image_or_rotation_changed s)) = prev_right s"
  by (simp_all add: image_or_rotation_changed_def state_of_def Let_def
        split: sum.splits prod.splits option.splits)

lemma image_or_rotation_changed_raised:
  "raised (image_or_rotation_changed s) \<noteq> Some ValueError"
  by (simp add: image_or_rotation_changed_def raised_def fix_interval_def Let_def
        split: sum.splits prod.splits option.splits)

lemma image_or_rotation_changed_returns:
  assumes "round_x s \<noteq> 0" "round_y s \<noteq> 0" "prev_w s \<noteq> 0 \<longrightarrow> prev_right s \<noteq> None"
  shows "raised (image_or_rotation_changed s) = None"
proof (cases "w s \<noteq> 0 \<and> w s = prev_w s \<and> h s = prev_h s")
  case True
  with assms(3) obtain pr where "prev_right s = Some pr" by auto
  with True show ?thesis
    by (simp add: image_or_rotation_changed_reuse raised_def)
next
  case False
  obtain t b where 1: "fix_interval 0 (h s) (h s) (round_y s) (rotation s = 3 \<or> rotation s = 8) = Inr (t, b)"
    using fix_interval_returns [OF assms(2)] by blast
  obtain l r where 2: "fix_interval 0 (w s) (w s) (round_x s) (rotation s = 3 \<or> rotation s = 6) = Inr (l, r)"
    using fix_interval_returns [OF assms(1)] by blast
  have "image_or_rotation_changed s = Inr (s\<lparr>top_edge := t, bottom := b, left := l, right := r\<rparr>)"
    by (rule image_or_rotation_changed_reset [OF _ 1 2]) (use False in auto)
  thus ?thesis by (simp add: raised_def)
qed

text \<open>
  C6. \<^verbatim>\<open>set_rotation\<close> with a value outside 1, 3, 6, 8 raises \<^verbatim>\<open>ValueError\<close> and
  leaves the manager as it was, rotation and rectangle included. With a value among
  1, 3, 6, 8 the stored rotation becomes that value and no \<^verbatim>\<open>ValueError\<close> is raised;
  the call returns normally on a manager whose granularities are not zero and whose
  saved right edge exists when a saved width does.
\<close>

theorem set_rotation_checked:
  "(rot \<notin> {1, 3, 6, 8} \<longrightarrow> set_rotation s rot = Inl (ValueError, s))
   \<and> (rot \<in> {1, 3, 6, 8} \<longrightarrow>
        rotation (state_of (set_rotation s rot)) = rot
        \<and> raised (set_rotation s rot) \<noteq> Some ValueError)
   \<and> (rot \<in> {1, 3, 6, 8} \<and> round_x s \<noteq> 0 \<and> round_y s \<noteq> 0
        \<and> (prev_w s \<noteq> 0 \<longrightarrow> prev_right s \<noteq> None) \<longrightarrow>
        raised (set_rotation s rot) = None)"
proof (intro conjI impI)
  assume "rot \<notin> {1, 3, 6, 8}"
  thus "set_rotation s rot = Inl (ValueError, s)" by (simp add: set_rotation_def)
next
  assume "rot \<in> {1, 3, 6, 8}"
  hence "set_rotation s rot = image_or_rotation_changed (s\<lparr>rotation := rot\<rparr>)"
    by (simp add: set_rotation_def)
  thus "rotation (state_of (set_rotation s rot)) = rot"
    by (simp add: image_or_rotation_changed_frame)
next
  assume "rot \<in> {1, 3, 6, 8}"
  hence "set_rotation s rot = image_or_rotation_changed (s\<lparr>rotation := rot\<rparr>)"
    by (simp add: set_rotation_def)
  thus "raised (set_rotation s rot) \<noteq> Some ValueError"
    by (simp add: image_or_rotation_changed_raised)
next
  assume a: "rot \<in> {1, 3, 6, 8} \<and> round_x s \<noteq> 0 \<and> round_y s \<noteq> 0
        \<and> (prev_w s \<noteq> 0 \<longrightarrow> prev_right s \<noteq> None)"
  hence "set_rotation s rot = image_or_rotation_changed (s\<lparr>rotation := rot\<rparr>)"
    by (simp add: set_rotation_def)
  moreover have "raised (image_or_rotation_changed (s\<lparr>rotation := rot\<rparr>)) = None"
    by (rule image_or_rotation_changed_returns) (use a in simp_all)
  ultimately show "raised (set_rotation s rot) = None" by simp
qed

theorem set_rotation_checked_witness:
  "set_rotation manager0 2 = Inl (ValueError, manager0)
   \<and> rotation (state_of (set_rotation manager0 6)) = 6
   \<and> raised (set_rotation manager0 6) = None"
  using set_rotation_checked [of 2 manager0] set_rotation_checked [of 6 manager0]
  by (simp add: manager0_def)


lemma rotate_cw_unfold:
  assumes "rotation s \<in> {1, 3, 6, 8}"
  shows "rotate_cw s = image_or_rotation_changed
           ((flip_dimensions s)\<lparr>rotation :=
              (if rotation s = 1 then 6 else if rotation s = 6 then 3
               else if rotation s = 3 then 8 else 1)\<rparr>)"
  using assms by (auto simp: rotate_cw_def set_rotation_def flip_dimensions_def Let_def)

lemma rotate_cw_step:
  assumes "rotation s \<in> {1, 3, 6, 8}"
  shows "rotation (state_of (rotate_cw s)) =
           (if rotation s = 1 then 6 else if rotation s = 6 then 3
            else if rotation s = 3 then 8 else 1)"
    and "w (state_of (rotate_cw s)) = h s"
    and "h (state_of (rotate_cw s)) = w s"
    and "round_x (state_of (rotate_cw s)) = round_y s"
    and "round_y (state_of (rotate_cw s)) = round_x s"
    and "prev_w (state_of (rotate_cw s)) = prev_w s"
    and "prev_right (state_of (rotate_cw s)) = prev_right s"
  unfolding rotate_cw_unfold [OF assms]
  by (simp_all add: image_or_rotation_changed_frame flip_dimensions_def)

lemma rotate_cw_valid:
  assumes "rotation s \<in> {1, 3, 6, 8}"
  shows "rotation (state_of (rotate_cw s)) \<in> {1, 3, 6, 8}"
  using assms by (auto simp: rotate_cw_step(1))

lemma rotate_cw_returns:
  assumes "rotation s \<in> {1, 3, 6, 8}" "round_x s \<noteq> 0" "round_y s \<noteq> 0"
    "prev_w s \<noteq> 0 \<longrightarrow> prev_right s \<noteq> None"
  shows "raised (rotate_cw s) = None"
  unfolding rotate_cw_unfold [OF assms(1)]
  by (rule image_or_rotation_changed_returns) (use assms in \<open>simp_all add: flip_dimensions_def\<close>)

text \<open>
  C5. From a rotation among 1, 3, 6, 8 and any width, height and granularities, four
  calls of \<^verbatim>\<open>rotate_cw\<close>, each on the manager as the call before left it, bring the
  rotation, the width, the height and both granularities back. One call advances the
  rotation along 1, 6, 3, 8, 1. The four calls return normally on a manager whose
  granularities are not zero and whose saved right edge exists when a saved width does.
\<close>

theorem rotate_cw_four_times:
  assumes "rotation s \<in> {1, 3, 6, 8}"
    and "s1 = state_of (rotate_cw s)" "s2 = state_of (rotate_cw s1)"
    and "s3 = state_of (rotate_cw s2)" "s4 = state_of (rotate_cw s3)"
  shows "rotation s4 = rotation s \<and> w s4 = w s \<and> h s4 = h s
       \<and> round_x s4 = round_x s \<and> round_y s4 = round_y s
       \<and> rotation s1 = (if rotation s = 1 then 6 else if rotation s = 6 then 3
                        else if rotation s = 3 then 8 else 1)
       \<and> (rotation s = 1 \<longrightarrow> rotation s1 = 6 \<and> rotation s2 = 3 \<and> rotation s3 = 8 \<and> rotation s4 = 1)
       \<and> (round_x s \<noteq> 0 \<and> round_y s \<noteq> 0 \<and> (prev_w s \<noteq> 0 \<longrightarrow> prev_right s \<noteq> None) \<longrightarrow>
            raised (rotate_cw s) = None \<and> raised (rotate_cw s1) = None
            \<and> raised (rotate_cw s2) = None \<and> raised (rotate_cw s3) = None)"
proof -
  note v0 = assms(1)
  have v1: "rotation s1 \<in> {1, 3, 6, 8}" unfolding assms(2) using v0 by (rule rotate_cw_valid)
  have v2: "rotation s2 \<in> {1, 3, 6, 8}" unfolding assms(3) using v1 by (rule rotate_cw_valid)
  have v3: "rotation s3 \<in> {1, 3, 6, 8}" unfolding assms(4) using v2 by (rule rotate_cw_valid)
  note st1 = rotate_cw_step [OF v0, folded assms(2)]
  note st2 = rotate_cw_step [OF v1, folded assms(3)]
  note st3 = rotate_cw_step [OF v2, folded assms(4)]
  note st4 = rotate_cw_step [OF v3, folded assms(5)]
  have dims: "w s4 = w s \<and> h s4 = h s \<and> round_x s4 = round_x s \<and> round_y s4 = round_y s"
    by (simp add: st1 st2 st3 st4)
  have r1: "rotation s1 = (if rotation s = 1 then 6 else if rotation s = 6 then 3
                        else if rotation s = 3 then 8 else 1)" by (rule st1(1))
  have r4: "rotation s4 = rotation s"
    using v0 by (auto simp: st1(1) st2(1) st3(1) st4(1))
  have cyc: "rotation s = 1 \<longrightarrow> rotation s1 = 6 \<and> rotation s2 = 3 \<and> rotation s3 = 8 \<and> rotation s4 = 1"
    by (simp add: st1(1) st2(1) st3(1) st4(1))
  have ret: "round_x s \<noteq> 0 \<and> round_y s \<noteq> 0 \<and> (prev_w s \<noteq> 0 \<longrightarrow> prev_right s \<noteq> None) \<longrightarrow>
            raised (rotate_cw s) = None \<and> raised (rotate_cw s1) = None
            \<and> raised (rotate_cw s2) = None \<and> raised (rotate_cw s3) = None"
  proof
    assume a: "round_x s \<noteq> 0 \<and> round_y s \<noteq> 0 \<and> (prev_w s \<noteq> 0 \<longrightarrow> prev_right s \<noteq> None)"
    have "raised (rotate_cw s) = None"
      by (rule rotate_cw_returns [OF v0]) (use a in simp_all)
    moreover have "raised (rotate_cw s1) = None"
      by (rule rotate_cw_returns [OF v1]) (use a in \<open>simp_all add: st1\<close>)
    moreover have "raised (rotate_cw s2) = None"
      by (rule rotate_cw_returns [OF v2]) (use a in \<open>simp_all add: st1 st2\<close>)
    moreover have "raised (rotate_cw s3) = None"
      by (rule rotate_cw_returns [OF v3]) (use a in \<open>simp_all add: st1 st2 st3\<close>)
    ultimately show "raised (rotate_cw s) = None \<and> raised (rotate_cw s1) = None
            \<and> raised (rotate_cw s2) = None \<and> raised (rotate_cw s3) = None" by simp
  qed
  from r4 dims r1 cyc ret show ?thesis by blast
qed

theorem rotate_cw_four_times_witness:
  "rotation (state_of (rotate_cw (state_of (rotate_cw (state_of (rotate_cw
       (state_of (rotate_cw manager_jpeg)))))))) = 1
   \<and> w (state_of (rotate_cw (state_of (rotate_cw (state_of (rotate_cw
       (state_of (rotate_cw manager_jpeg)))))))) = 100
   \<and> round_x (state_of (rotate_cw (state_of (rotate_cw (state_of (rotate_cw
       (state_of (rotate_cw manager_jpeg)))))))) = 16
   \<and> rotation (state_of (rotate_cw manager_jpeg)) = 6
   \<and> raised (rotate_cw manager_jpeg) = None"
proof -
  have r: "rotation manager_jpeg \<in> {1, 3, 6, 8}"
    by (simp add: manager_jpeg_def manager0_def)
  have p: "round_x manager_jpeg \<noteq> 0 \<and> round_y manager_jpeg \<noteq> 0
           \<and> (prev_w manager_jpeg \<noteq> 0 \<longrightarrow> prev_right manager_jpeg \<noteq> None)"
    by (simp add: manager_jpeg_def manager0_def)
  have v: "rotation manager_jpeg = 1" "w manager_jpeg = 100" "round_x manager_jpeg = 16"
    by (simp_all add: manager_jpeg_def manager0_def)
  from rotate_cw_four_times [OF r refl refl refl refl] p v show ?thesis by metis
qed

subsection \<open>Committing a rectangle twice\<close>

lemma aligned_div_mult:
  fixes r :: int
  assumes "0 < r" "r dvd n"
  shows "((n + r - 1) div r) * r = n"
proof -
  from assms(2) obtain k where k: "n = k * r" by (metis dvd_def mult.commute)
  have "(k * r + (r - 1)) div r = k" using assms(1) by simp
  hence "(n + r - 1) div r = k" by (simp add: k add_diff_eq)
  thus ?thesis by (simp add: k)
qed

lemma fix_interval_forward_le:
  assumes "0 < r" "fix_interval a b lm r False = Inr (a', b')"
  shows "a' \<le> b'"
proof -
  from assms have a': "a' = (min a b div r) * r" and b': "b' = max a b"
    by (simp_all add: fix_interval_def Let_def)
  have "(min a b div r) * r + min a b mod r = min a b" by simp
  moreover have "0 \<le> min a b mod r" using assms(1) by simp
  ultimately have "a' \<le> min a b" unfolding a' by linarith
  thus ?thesis unfolding b' by linarith
qed

lemma fix_interval_fixed_point:
  assumes r: "0 < r" and f: "fix_interval a b lm r reverse = Inr (a', b')"
  shows "fix_interval a' b' lm r reverse = Inr (a', b') \<longleftrightarrow> (reverse \<longrightarrow> 0 \<le> a' \<and> a' \<le> b')"
proof (cases reverse)
  case False
  with r f have le: "a' \<le> b'" by (simp add: fix_interval_forward_le)
  from False f r have "a' = (min a b div r) * r" by (simp add: fix_interval_def Let_def)
  hence "(a' div r) * r = a'" using r by simp
  with le False r show ?thesis by (simp add: fix_interval_def Let_def min_def max_def)
next
  case True
  have d: "r dvd (lm - a')" using f True
    by (auto simp: fix_interval_def Let_def split: if_splits)
  show ?thesis
  proof (cases "a' \<le> b'")
    case le: True
    have "(((lm - a') + r - 1) div r) * r = lm - a'" using r d by (rule aligned_div_mult)
    hence "fix_interval a' b' lm r True = Inr (if a' < 0 then a' + r else a', b')"
      using le r by (simp add: fix_interval_def Let_def min_def max_def)
    with r le True show ?thesis by auto
  next
    case False
    hence "max a' b' = a'" "a' \<noteq> b'" by simp_all
    hence "\<And>x. fix_interval a' b' lm r True \<noteq> Inr (x, b')" using r
      by (auto simp add: fix_interval_def Let_def)
    with False True show ?thesis by auto
  qed
qed

lemma set_crop_Inr:
  assumes "set_crop s t l r b = Inr s1"
  obtains t' b' l' r' where
    "fix_interval t b (h s) (round_y s) (rotation s = 3 \<or> rotation s = 8) = Inr (t', b')"
    "fix_interval l r (w s) (round_x s) (rotation s = 3 \<or> rotation s = 6) = Inr (l', r')"
    "s1 = s\<lparr>top_edge := t', bottom := b', left := l', right := r'\<rparr>"
  using assms by (auto simp: set_crop_def Let_def split: sum.splits prod.splits)

lemma set_crop_eval:
  assumes "fix_interval t b (h s) (round_y s) (rotation s = 3 \<or> rotation s = 8) = Inr (t', b')"
    "fix_interval l r (w s) (round_x s) (rotation s = 3 \<or> rotation s = 6) = Inr (l', r')"
  shows "set_crop s t l r b = Inr (s\<lparr>top_edge := t', bottom := b', left := l', right := r'\<rparr>)"
  using assms by (simp add: set_crop_def Let_def)

text \<open>
  C10 (amended). After a \<^verbatim>\<open>set_crop\<close> with positive granularities, calling
  \<^verbatim>\<open>set_crop\<close> with the stored edges leaves the manager unchanged, provided that on
  each axis aligned from the upper bound (rotation 3 or 8 vertically, 3 or 6
  horizontally) the stored anchored edge is not negative and not beyond the opposite
  edge. An axis aligned from 0 needs no condition.
\<close>

theorem set_crop_idempotent:
  assumes "0 < round_x s" "0 < round_y s"
    and "set_crop s t l r b = Inr s1"
    and "rotation s \<in> {3, 8} \<longrightarrow> 0 \<le> top_edge s1 \<and> top_edge s1 \<le> bottom s1"
    and "rotation s \<in> {3, 6} \<longrightarrow> 0 \<le> left s1 \<and> left s1 \<le> right s1"
  shows "set_crop s1 (top_edge s1) (left s1) (right s1) (bottom s1) = Inr s1"
proof -
  from assms(3) obtain t' b' l' r' where
    v: "fix_interval t b (h s) (round_y s) (rotation s = 3 \<or> rotation s = 8) = Inr (t', b')"
    and hz: "fix_interval l r (w s) (round_x s) (rotation s = 3 \<or> rotation s = 6) = Inr (l', r')"
    and s1: "s1 = s\<lparr>top_edge := t', bottom := b', left := l', right := r'\<rparr>"
    by (rule set_crop_Inr)
  have e: "top_edge s1 = t'" "bottom s1 = b'" "left s1 = l'" "right s1 = r'"
    "h s1 = h s" "w s1 = w s" "round_x s1 = round_x s" "round_y s1 = round_y s"
    "rotation s1 = rotation s"
    by (simp_all add: s1)
  have v': "fix_interval t' b' (h s) (round_y s) (rotation s = 3 \<or> rotation s = 8) = Inr (t', b')"
    using fix_interval_fixed_point [OF assms(2) v] assms(4) by (simp add: e)
  have hz': "fix_interval l' r' (w s) (round_x s) (rotation s = 3 \<or> rotation s = 6) = Inr (l', r')"
    using fix_interval_fixed_point [OF assms(1) hz] assms(5) by (simp add: e)
  have "set_crop s1 t' l' r' b' = Inr (s1\<lparr>top_edge := t', bottom := b', left := l', right := r'\<rparr>)"
    by (rule set_crop_eval) (simp_all add: e v' hz')
  also have "s1\<lparr>top_edge := t', bottom := b', left := l', right := r'\<rparr> = s1"
    by (simp add: s1)
  finally show ?thesis by (simp add: e)
qed

text \<open>
  C10 (counterexample). On a 10 pixel axis with granularity 8 aligned from the upper
  bound, \<^verbatim>\<open>set_crop(0, 0, 1, 1)\<close> stores top 2 above bottom 1 (the added step of line
  264 passes the other edge); \<^verbatim>\<open>set_crop\<close> with the stored values then sorts the two
  and moves bottom and right to 2.
\<close>

theorem set_crop_twice_differs:
  "get_corners (state_of (set_crop manager_small 0 0 1 1)) = (2, 2, 1, 1)
   \<and> raised (set_crop manager_small 0 0 1 1) = None
   \<and> get_corners (state_of (set_crop (state_of (set_crop manager_small 0 0 1 1)) 2 2 1 1)) = (2, 2, 2, 2)"
  by (simp add: manager_small_def manager0_def set_crop_def fix_interval_def Let_def
        state_of_def raised_def get_corners_def)

theorem set_crop_idempotent_witness:
  "set_crop (state_of (set_crop manager_jpeg 7 20 90 50)) 0 16 90 50
     = Inr (state_of (set_crop manager_jpeg 7 20 90 50))
   \<and> get_corners (state_of (set_crop manager_jpeg 7 20 90 50)) = (0, 16, 90, 50)"
proof -
  have 1: "set_crop manager_jpeg 7 20 90 50
           = Inr (manager_jpeg\<lparr>top_edge := 0, bottom := 50, left := 16, right := 90\<rparr>)"
    by (simp add: manager_jpeg_def manager0_def set_crop_def fix_interval_def Let_def)
  have 2: "state_of (set_crop manager_jpeg 7 20 90 50)
           = manager_jpeg\<lparr>top_edge := 0, bottom := 50, left := 16, right := 90\<rparr>"
    by (simp add: 1 state_of_def)
  have 3: "0 < round_x manager_jpeg" "0 < round_y manager_jpeg" "rotation manager_jpeg = 1"
    by (simp_all add: manager_jpeg_def manager0_def)
  from set_crop_idempotent [OF 3(1) 3(2) 1] 3(3) show ?thesis
    by (simp add: 2 get_corners_def)
qed

subsection \<open>Dragging inside the image\<close>

text \<open>
  What \<^verbatim>\<open>drag_continue\<close> does keep: from a rectangle and a snapshot inside the
  image, with positive granularities, every committed edge lies between 0 and the width
  or height, for every drag kind and pointer position.
\<close>

lemma fix_interval_within:
  assumes r: "0 < r" and a: "0 \<le> a" "a \<le> lm" and b: "0 \<le> b" "b \<le> lm"
    and f: "fix_interval a b lm r reverse = Inr (a', b')"
  shows "0 \<le> a' \<and> a' \<le> lm \<and> 0 \<le> b' \<and> b' \<le> lm"
proof -
  define m where "m = min a b"
  have m: "0 \<le> m" "m \<le> lm" using a b by (simp_all add: m_def)
  have b': "b' = max a b" using f by (auto simp: fix_interval_def Let_def split: if_splits)
  hence bb: "0 \<le> b' \<and> b' \<le> lm" using a b by simp
  show ?thesis
  proof (cases reverse)
    case False
    with f r have a': "a' = (m div r) * r" by (simp add: fix_interval_def Let_def m_def)
    have "(m div r) * r + m mod r = m" by simp
    moreover have "0 \<le> m mod r" using r by simp
    ultimately have "a' \<le> m" unfolding a' by linarith
    moreover have "0 \<le> a'" unfolding a' using r m(1) by (simp add: pos_imp_zdiv_nonneg_iff)
    ultimately show ?thesis using bb m by simp
  next
    case True
    define k where "k = ((lm - m) + r - 1) div r"
    define a2 where "a2 = lm - k * r"
    from f r True have a': "a' = (if a2 < 0 then a2 + r else a2)"
      by (auto simp: fix_interval_def Let_def a2_def k_def m_def split: if_splits)
    have low: "- r < a2" unfolding a2_def k_def using r m(1) by (rule reverse_step_lower)
    have k0: "0 \<le> k" unfolding k_def using r m(2) by (simp add: pos_imp_zdiv_nonneg_iff)
    hence up: "a2 \<le> lm" unfolding a2_def using r by simp
    have up2: "a2 < 0 \<Longrightarrow> a2 + r \<le> lm"
    proof -
      assume "a2 < 0"
      hence "lm < k * r" by (simp add: a2_def)
      with m a have "0 < k * r" by linarith
      with r k0 have "1 \<le> k" by (cases "k = 0") auto
      hence "r \<le> k * r" using r by simp
      thus "a2 + r \<le> lm" by (simp add: a2_def)
    qed
    from low up up2 bb show ?thesis by (auto simp: a')
  qed
qed

lemma drag_clamp_within:
  assumes rect: "0 \<le> top_edge s" "top_edge s < bottom s" "bottom s \<le> h s"
                "0 \<le> left s" "left s < right s" "right s \<le> w s"
    and snap: "0 \<le> t0 s" "t0 s < b0 s" "b0 s \<le> h s" "0 \<le> l0 s" "l0 s < r0 s" "r0 s \<le> w s"
    and c: "drag_clamp s (drag_candidates s dx dy) = (ct, cl, cr, cb)"
  shows "0 \<le> ct \<and> ct \<le> h s \<and> 0 \<le> cb \<and> cb \<le> h s
       \<and> 0 \<le> cl \<and> cl \<le> w s \<and> 0 \<le> cr \<and> cr \<le> w s"
proof (cases "state s = DRAG_C")
  case False
  obtain a b c' d where cand: "drag_candidates s dx dy = (a, b, c', d)" by (metis prod_cases4)
  from c False have
    t: "ct = min (bottom s - 1) (if a < 0 then 0 else a)" and
    l: "cl = min (right s - 1) (if b < 0 then 0 else b)" and
    r: "cr = max (left s + 1) (if c' \<ge> w s then w s - 1 else c')" and
    b: "cb = max (top_edge s + 1) (if d \<ge> h s then h s - 1 else d)"
    by (auto simp add: cand drag_clamp_def Let_def)
  have "0 \<le> ct \<and> ct \<le> h s" using t rect(1-3) by (auto split: if_splits)
  moreover have "0 \<le> cb \<and> cb \<le> h s" using b rect(1-3) by (auto split: if_splits)
  moreover have "0 \<le> cl \<and> cl \<le> w s" using l rect(4-6) by (auto split: if_splits)
  moreover have "0 \<le> cr \<and> cr \<le> w s" using r rect(4-6) by (auto split: if_splits)
  ultimately show ?thesis by simp
next
  case True
  define ex where "ex = (if dx > 0 then min dx (w s - r0 s) else max dx (- l0 s))"
  define ey where "ey = (if dy > 0 then min dy (h s - b0 s) else max dy (- t0 s))"
  have cand: "drag_candidates s dx dy = (t0 s + ey, l0 s + ex, r0 s + ex, b0 s + ey)"
    using True by (simp add: drag_candidates_def get_corners_def Let_def ex_def ey_def)
  have ex: "- l0 s \<le> ex" "ex \<le> w s - r0 s" using snap(4-6) by (auto simp: ex_def)
  have ey: "- t0 s \<le> ey" "ey \<le> h s - b0 s" using snap(1-3) by (auto simp: ey_def)
  from c True have
    t: "ct = (if t0 s + ey < 0 then 0 else t0 s + ey)" and
    l: "cl = (if l0 s + ex < 0 then 0 else l0 s + ex)" and
    r: "cr = (if r0 s + ex \<ge> w s then w s - 1 else r0 s + ex)" and
    b: "cb = (if b0 s + ey \<ge> h s then h s - 1 else b0 s + ey)"
    by (auto simp add: cand drag_clamp_def Let_def)
  have "0 \<le> ct \<and> ct \<le> h s" using t ey snap(1-3) by (auto split: if_splits)
  moreover have "0 \<le> cb \<and> cb \<le> h s" using b ey snap(1-3) by (auto split: if_splits)
  moreover have "0 \<le> cl \<and> cl \<le> w s" using l ex snap(4-6) by (auto split: if_splits)
  moreover have "0 \<le> cr \<and> cr \<le> w s" using r ex snap(4-6) by (auto split: if_splits)
  ultimately show ?thesis by simp
qed

lemma drag_continue_within_image:
  assumes rect: "0 \<le> top_edge s" "top_edge s < bottom s" "bottom s \<le> h s"
                "0 \<le> left s" "left s < right s" "right s \<le> w s"
    and snap: "0 \<le> t0 s" "t0 s < b0 s" "b0 s \<le> h s" "0 \<le> l0 s" "l0 s < r0 s" "r0 s \<le> w s"
    and gran: "0 < round_x s" "0 < round_y s"
    and ret: "drag_continue s x y = Inr s'"
  shows "0 \<le> top_edge s' \<and> top_edge s' \<le> h s \<and> 0 \<le> bottom s' \<and> bottom s' \<le> h s
       \<and> 0 \<le> left s' \<and> left s' \<le> w s \<and> 0 \<le> right s' \<and> right s' \<le> w s"
proof -
  from ret obtain dx dy where d: "drag_deltas s x y = Inr (dx, dy)"
    by (auto simp: drag_continue_def split: sum.splits)
  obtain ct cl cr cb where c: "drag_clamp s (drag_candidates s dx dy) = (ct, cl, cr, cb)"
    by (metis prod_cases4)
  have sc: "set_crop s ct cl cr cb = Inr s'" using ret by (simp add: drag_continue_def d c)
  have b: "0 \<le> ct \<and> ct \<le> h s \<and> 0 \<le> cb \<and> cb \<le> h s
       \<and> 0 \<le> cl \<and> cl \<le> w s \<and> 0 \<le> cr \<and> cr \<le> w s"
    using rect snap c by (rule drag_clamp_within)
  from sc obtain t' b' l' r' where
    v: "fix_interval ct cb (h s) (round_y s) (rotation s = 3 \<or> rotation s = 8) = Inr (t', b')"
    and hz: "fix_interval cl cr (w s) (round_x s) (rotation s = 3 \<or> rotation s = 6) = Inr (l', r')"
    and s': "s' = s\<lparr>top_edge := t', bottom := b', left := l', right := r'\<rparr>"
    by (rule set_crop_Inr)
  have "0 \<le> t' \<and> t' \<le> h s \<and> 0 \<le> b' \<and> b' \<le> h s"
    using gran(2) _ _ _ _ v by (rule fix_interval_within) (use b in simp_all)
  moreover have "0 \<le> l' \<and> l' \<le> w s \<and> 0 \<le> r' \<and> r' \<le> w s"
    using gran(1) _ _ _ _ hz by (rule fix_interval_within) (use b in simp_all)
  ultimately show ?thesis by (simp add: s')
qed

lemma drag_start_left_edge: "drag_start manager0 0 5 False
   = Inr (manager0\<lparr>x0 := 0, y0 := 5, t0 := 0, l0 := 0, r0 := 10, b0 := 10, state := DRAG_L, fixed_ratio := False\<rparr>)"
  by (simp add: drag_start_def classify_def get_screencorners_def get_corners_def py_int_def manager0_def Let_def)

text \<open>
  C1 (the code at the failing input). The whole of a 10 by 10 image is selected;
  the drag starts on the left edge at (0, 5) and the pointer moves to (9, 5). Line 440
  takes the untouched right edge from 10 to 9 (and line 442 the bottom edge), while
  line 447 still bounds the left edge by the stored right edge minus 1, which is 9:
  the committed rectangle has left = right = 9.
\<close>

theorem drag_continue_collapses:
  "drag_start manager0 0 5 False
     = Inr (manager0\<lparr>x0 := 0, y0 := 5, t0 := 0, l0 := 0, r0 := 10, b0 := 10,
                      state := DRAG_L, fixed_ratio := False\<rparr>)
   \<and> raised (drag_continue (state_of (drag_start manager0 0 5 False)) 9 5) = None
   \<and> get_corners (state_of (drag_continue (state_of (drag_start manager0 0 5 False)) 9 5))
       = (0, 9, 9, 9)"
proof -
  define S where "S = state_of (drag_start manager0 0 5 False)"
  have S: "S = manager0\<lparr>x0 := 0, y0 := 5, t0 := 0, l0 := 0, r0 := 10, b0 := 10,
                      state := DRAG_L, fixed_ratio := False\<rparr>"
    by (simp add: S_def drag_start_left_edge state_of_def)
  have f: "w S = 10" "h S = 10" "round_x S = 1" "round_y S = 1" "rotation S = 1"
    "top_edge S = 0" "left S = 0" "right S = 10" "bottom S = 10" "scale S = 1"
    "x0 S = 0" "y0 S = 5" "t0 S = 0" "l0 S = 0" "r0 S = 10" "b0 S = 10"
    "state S = DRAG_L" "fixed_ratio S = False"
    by (simp_all add: S manager0_def)
  have d: "drag_deltas S 9 5 = Inr (9, 0)"
    by (simp add: drag_deltas_def f Let_def)
  have c: "drag_candidates S 9 0 = (0, 9, 10, 10)"
    by (simp add: drag_candidates_def get_corners_def f Let_def)
  have k: "drag_clamp S (0, 9, 10, 10) = (0, 9, 9, 9)"
    by (simp add: drag_clamp_def f Let_def)
  have sc: "set_crop S 0 9 9 9 = Inr (S\<lparr>top_edge := 0, bottom := 9, left := 9, right := 9\<rparr>)"
    by (simp add: set_crop_def fix_interval_def f Let_def)
  have "drag_continue S 9 5 = Inr (S\<lparr>top_edge := 0, bottom := 9, left := 9, right := 9\<rparr>)"
    by (simp add: drag_continue_def d c k sc)
  hence "raised (drag_continue S 9 5) = None"
    "get_corners (state_of (drag_continue S 9 5)) = (0, 9, 9, 9)"
    by (simp_all add: raised_def state_of_def get_corners_def)
  with drag_start_left_edge show ?thesis unfolding S_def by simp
qed

subsection \<open>Dragging a corner with the ratio locked\<close>

text \<open>
  The error of one rounding to a double is at most \<open>2^-53\<close> of the exact value, so a
  chain of six roundings leaves a factor within \<open>2^-49\<close> of 1 on the derived delta.
\<close>

lemma py_round_near: "\<bar>of_int (py_round q) - q\<bar> \<le> 1 / 2"
proof -
  define f where "f = \<lfloor>q\<rfloor>"
  define d where "d = q - of_int f"
  have d0: "0 \<le> d" and d1: "d < 1" unfolding d_def f_def by linarith+
  have q: "q = of_int f + d" by (simp add: d_def)
  have "py_round q = (if d < 1 / 2 then f else if 1 / 2 < d then f + 1
                      else if even f then f else f + 1)"
    by (simp add: py_round_def Let_def f_def d_def)
  thus ?thesis using d0 d1 unfolding q by (auto simp: abs_if)
qed

lemma two_powi_pos: "0 < (2::rat) powi k"
  by (simp add: power_int_def)

lemma two_powi_nat: "0 \<le> k \<Longrightarrow> (2::rat) powi k = 2 ^ nat k"
  by (simp add: power_int_def)

lemma ilog2_bounds:
  assumes "0 < x"
  shows "2 powi (ilog2 x) \<le> x" and "x < 2 powi (ilog2 x + 1)"
proof -
  obtain n d where q: "quotient_of x = (n, d)" by (cases "quotient_of x")
  have d: "0 < d" using q by (rule quotient_of_denom_pos)
  have x: "x = of_int n / of_int d" using q by (rule quotient_of_div)
  have n: "0 < n" using assms d by (simp add: x zero_less_divide_iff)
  define bn where "bn = bitlen n"
  define bd where "bd = bitlen d"
  have bn1: "1 \<le> bn" and bd1: "1 \<le> bd"
    using n d bitlen_eq_zero_iff [of n] bitlen_eq_zero_iff [of d] bitlen_nonneg [of n] bitlen_nonneg [of d]
    by (auto simp: bn_def bd_def)
  have nb: "2 ^ nat (bn - 1) \<le> n" "n < 2 ^ nat bn" using bitlen_bounds [OF n] by (simp_all add: bn_def)
  have db: "2 ^ nat (bd - 1) \<le> d" "d < 2 ^ nat bd" using bitlen_bounds [OF d] by (simp_all add: bd_def)
  have nl: "(2::rat) powi (bn - 1) \<le> of_int n"
  proof -
    have "(of_int (2 ^ nat (bn - 1)) :: rat) \<le> of_int n" using nb(1) by (simp only: of_int_le_iff)
    thus ?thesis using bn1 by (simp add: two_powi_nat)
  qed
  have nu: "(of_int n :: rat) < 2 powi bn"
  proof -
    have "(of_int n :: rat) < of_int (2 ^ nat bn)" using nb(2) by (simp only: of_int_less_iff)
    thus ?thesis using bn1 by (simp add: two_powi_nat)
  qed
  have dl: "(2::rat) powi (bd - 1) \<le> of_int d"
  proof -
    have "(of_int (2 ^ nat (bd - 1)) :: rat) \<le> of_int d" using db(1) by (simp only: of_int_le_iff)
    thus ?thesis using bd1 by (simp add: two_powi_nat)
  qed
  have du: "(of_int d :: rat) < 2 powi bd"
  proof -
    have "(of_int d :: rat) < of_int (2 ^ nat bd)" using db(2) by (simp only: of_int_less_iff)
    thus ?thesis using bd1 by (simp add: two_powi_nat)
  qed
  have dpos: "(0::rat) < of_int d" using d by simp
  have npos: "(0::rat) < of_int n" using n by simp
  have low: "(2::rat) powi (bn - bd - 1) < x"
  proof -
    have "(2::rat) powi (bn - bd - 1) * of_int d < 2 powi (bn - bd - 1) * 2 powi bd"
      using du two_powi_pos [of "bn - bd - 1"] by (simp only: mult_less_cancel_left_pos)
    also have "\<dots> = 2 powi (bn - 1)"
      by (simp add: power_int_add [symmetric])
    also have "\<dots> \<le> of_int n" by (rule nl)
    finally show ?thesis using dpos by (simp add: x pos_less_divide_eq)
  qed
  have up: "x < (2::rat) powi (bn - bd + 1)"
  proof -
    have "of_int n < (2::rat) powi bn" by (rule nu)
    also have "\<dots> = 2 powi (bn - bd + 1) * 2 powi (bd - 1)"
      by (simp add: power_int_add [symmetric])
    also have "\<dots> \<le> 2 powi (bn - bd + 1) * of_int d"
      using dl two_powi_pos [of "bn - bd + 1"] by (simp only: mult_le_cancel_left_pos)
    finally show ?thesis using dpos by (simp add: x pos_divide_less_eq)
  qed
  have il: "ilog2 x = (if 2 powi (bn - bd) \<le> x then bn - bd else bn - bd - 1)"
    by (simp add: ilog2_def q Let_def bn_def bd_def)
  show "2 powi (ilog2 x) \<le> x" using low by (auto simp: il)
  show "x < 2 powi (ilog2 x + 1)" using up by (auto simp: il)
qed

lemma fl_error:
  "\<bar>fl x - x\<bar> \<le> \<bar>x\<bar> / 2 ^ 53"
proof (cases "x = 0")
  case True
  then show ?thesis by (simp add: fl_def)
next
  case False
  define a where "a = \<bar>x\<bar>"
  define e where "e = ilog2 a - 52"
  define P where "P = (2::rat) powi e"
  define m where "m = py_round (a / P)"
  have a: "0 < a" using False by (simp add: a_def)
  have P: "0 < P" unfolding P_def by (rule two_powi_pos)
  have f: "fl x = sgn x * of_int m * P"
    using False by (simp add: fl_def Let_def a_def e_def P_def m_def)
  have xs: "x = sgn x * a" by (simp add: a_def sgn_mult_abs)
  have s1: "\<bar>sgn x\<bar> = 1" using False by (simp add: abs_sgn_eq)
  have "fl x - x = sgn x * of_int m * P - sgn x * a"
    by (simp only: f xs [symmetric])
  also have "\<dots> = sgn x * (of_int m * P - a)" by (simp add: algebra_simps)
  finally have "fl x - x = sgn x * (of_int m * P - a)" .
  hence "\<bar>fl x - x\<bar> = \<bar>sgn x\<bar> * \<bar>of_int m * P - a\<bar>" by (simp only: abs_mult)
  hence "\<bar>fl x - x\<bar> = \<bar>of_int m * P - a\<bar>" by (simp only: s1 mult_1)
  also have "of_int m * P - a = (of_int m - a / P) * P" using P by (simp add: field_simps)
  also have "\<bar>(of_int m - a / P) * P\<bar> = \<bar>of_int m - a / P\<bar> * P" using P by (simp add: abs_mult)
  also have "\<dots> \<le> (1 / 2) * P"
    using py_round_near [of "a / P"] P by (simp only: m_def mult_le_cancel_right_pos)
  finally have 1: "\<bar>fl x - x\<bar> \<le> P / 2" by simp
  have "2 powi (ilog2 a) \<le> a" using a by (rule ilog2_bounds)
  moreover have "(2::rat) powi (ilog2 a) = P * 2 ^ 52"
    by (simp add: P_def e_def power_int_diff)
  ultimately have "P * 2 ^ 52 \<le> a" by simp
  hence "P / 2 \<le> a / 2 ^ 53" by (simp add: field_simps)
  with 1 show ?thesis by (simp add: a_def)
qed


lemma ulp_ratio_gt1: "1 < ulp_ratio"
  by (simp add: ulp_ratio_def)

lemma ulp_ratio_pow_pos: "0 < ulp_ratio ^ k"
  using ulp_ratio_gt1 by simp

lemma within_ulps_pos: "within_ulps k f \<Longrightarrow> 0 < f"
proof -
  assume "within_ulps k f"
  hence "1 / ulp_ratio ^ k \<le> f" by (simp add: within_ulps_def)
  moreover have "0 < 1 / ulp_ratio ^ k" using ulp_ratio_pow_pos [of k] by simp
  ultimately show ?thesis by linarith
qed

lemma within_ulps_mult:
  assumes "within_ulps j f" "within_ulps k g"
  shows "within_ulps (j + k) (f * g)"
proof -
  have f: "1 / ulp_ratio ^ j \<le> f" "f \<le> ulp_ratio ^ j"
    and g: "1 / ulp_ratio ^ k \<le> g" "g \<le> ulp_ratio ^ k"
    using assms by (simp_all add: within_ulps_def)
  have fp: "0 < f" and gp: "0 < g" using assms by (auto dest: within_ulps_pos)
  have lj: "0 \<le> 1 / ulp_ratio ^ j" and lk: "0 \<le> 1 / ulp_ratio ^ k"
    using ulp_ratio_pow_pos [of j] ulp_ratio_pow_pos [of k] by simp_all
  have "(1 / ulp_ratio ^ j) * (1 / ulp_ratio ^ k) \<le> f * g"
    using f(1) g(1) lj lk by (intro mult_mono) (use fp in auto)
  moreover have "f * g \<le> ulp_ratio ^ j * ulp_ratio ^ k"
    using f(2) g(2) fp gp by (intro mult_mono) auto
  ultimately show ?thesis by (simp add: within_ulps_def power_add)
qed

lemma within_ulps_inverse:
  assumes "within_ulps k f"
  shows "within_ulps k (1 / f)"
proof -
  have f: "1 / ulp_ratio ^ k \<le> f" "f \<le> ulp_ratio ^ k"
    using assms by (simp_all add: within_ulps_def)
  have fp: "0 < f" using assms by (rule within_ulps_pos)
  have cp: "0 < ulp_ratio ^ k" by (rule ulp_ratio_pow_pos)
  have "1 / ulp_ratio ^ k \<le> 1 / f" using f(2) fp cp by (simp add: frac_le)
  moreover have "1 / f \<le> ulp_ratio ^ k" using f(1) fp cp by (simp add: field_simps)
  ultimately show ?thesis by (simp add: within_ulps_def)
qed

lemma within_ulps_divide:
  assumes "within_ulps j f" "within_ulps k g"
  shows "within_ulps (j + k) (f / g)"
  using within_ulps_mult [OF assms(1) within_ulps_inverse [OF assms(2)]] by simp

lemma within_ulps_6:
  assumes "within_ulps 6 f"
  shows "\<bar>f - 1\<bar> \<le> 1 / 2 ^ 49"
proof -
  have f: "1 / ulp_ratio ^ 6 \<le> f" "f \<le> ulp_ratio ^ 6"
    using assms by (simp_all add: within_ulps_def)
  have "ulp_ratio ^ 6 \<le> 1 + 1 / 2 ^ 49" by (simp add: ulp_ratio_def power_divide)
  moreover have "1 - 1 / 2 ^ 49 \<le> 1 / ulp_ratio ^ 6" by (simp add: ulp_ratio_def power_divide)
  ultimately have "f \<le> 1 + 1 / 2 ^ 49" "1 - 1 / 2 ^ 49 \<le> f" using f by linarith+
  thus ?thesis by (simp only: abs_le_iff) linarith
qed

lemma fl_factor: "\<exists>f. within_ulps 1 f \<and> fl x = x * f"
proof (cases "x = 0")
  case True
  have "within_ulps 1 1" by (simp add: within_ulps_def ulp_ratio_def)
  thus ?thesis using True by (auto simp: fl_def)
next
  case False
  define f where "f = fl x / x"
  have eq: "fl x = x * f" using False by (simp add: f_def)
  have ax: "0 < \<bar>x\<bar>" using False by simp
  have "f - 1 = (fl x - x) / x" using False by (simp add: f_def field_simps)
  hence "\<bar>f - 1\<bar> = \<bar>fl x - x\<bar> / \<bar>x\<bar>" by (simp only: abs_divide)
  also have "\<dots> \<le> (\<bar>x\<bar> / 2 ^ 53) / \<bar>x\<bar>"
    using fl_error [of x] ax by (simp only: divide_le_cancel) simp
  also have "\<dots> = 1 / 2 ^ 53" using False by simp
  finally have b: "\<bar>f - 1\<bar> \<le> 1 / 2 ^ 53" .
  have lo: "1 / ulp_ratio \<le> 1 - 1 / 2 ^ 53" by (simp add: ulp_ratio_def)
  have hi: "1 + 1 / 2 ^ 53 \<le> ulp_ratio" by (simp add: ulp_ratio_def)
  from b have "1 - 1 / 2 ^ 53 \<le> f" "f \<le> 1 + 1 / 2 ^ 53" by (simp_all only: abs_le_iff) linarith+
  with lo hi have "1 / ulp_ratio \<le> f \<and> f \<le> ulp_ratio" by linarith
  hence "within_ulps 1 f" by (simp only: within_ulps_def power_one_right)
  thus ?thesis using eq by blast
qed

lemma float_of_int_factor: "\<exists>f. within_ulps 1 f \<and> float_of_int n = of_int n * f"
  unfolding float_of_int_def by (rule fl_factor)

lemma fmul_factor: "\<exists>f. within_ulps 1 f \<and> fmul a b = a * b * f"
  unfolding fmul_def by (rule fl_factor)

lemma fdiv_factor: "\<exists>f. within_ulps 1 f \<and> fdiv a b = a / b * f"
  unfolding fdiv_def by (rule fl_factor)

lemma rounded_near:
  fixes v :: rat
  assumes "within_ulps 6 f"
  shows "\<bar>of_int (py_round (v * f)) - v\<bar> \<le> 1 / 2 + \<bar>v\<bar> / 2 ^ 49"
proof -
  have 1: "\<bar>of_int (py_round (v * f)) - v * f\<bar> \<le> 1 / 2" by (rule py_round_near)
  have "v * f - v = v * (f - 1)" by (simp add: algebra_simps)
  hence "\<bar>v * f - v\<bar> = \<bar>v\<bar> * \<bar>f - 1\<bar>" by (simp only: abs_mult)
  also have "\<dots> \<le> \<bar>v\<bar> * (1 / 2 ^ 49)"
    using within_ulps_6 [OF assms] by (intro mult_left_mono) auto
  finally have 2: "\<bar>v * f - v\<bar> \<le> \<bar>v\<bar> / 2 ^ 49" by simp
  from 1 2 show ?thesis by linarith
qed

lemma drag_deltas_locked:
  assumes "fixed_ratio s" "l0 s < r0 s" "t0 s < b0 s"
    and rho: "\<rho> = (of_int (r0 s - l0 s) :: rat) / of_int (b0 s - t0 s)"
    and sg: "\<sigma> = (if state s = DRAG_TR \<or> state s = DRAG_BL then - \<rho> else \<rho>)"
  shows "\<exists>dx dy. drag_deltas s x y = Inr (dx, dy)
           \<and> (\<bar>of_int dy - of_int dx / \<sigma>\<bar> \<le> 1 / 2 + \<bar>of_int dx / \<sigma>\<bar> / 2 ^ 49
              \<or> \<bar>of_int dx - of_int dy * \<sigma>\<bar> \<le> 1 / 2 + \<bar>of_int dy * \<sigma>\<bar> / 2 ^ 49)"
proof -
  define dx where "dx = (x - x0 s) * scale s"
  define dy where "dy = (y - y0 s) * scale s"
  define W where "W = r0 s - l0 s"
  define H where "H = b0 s - t0 s"
  have Wp: "0 < W" and Hp: "0 < H" using assms(2,3) by (simp_all add: W_def H_def)
  have pos: "0 < \<rho>" using Wp Hp by (simp add: rho W_def H_def)
  hence nz: "\<sigma> \<noteq> 0" by (simp add: sg)
  obtain f1 where f1: "within_ulps 1 f1" "float_of_int W = of_int W * f1"
    using float_of_int_factor by blast
  obtain f2 where f2: "within_ulps 1 f2" "fmul (float_of_int W) 1 = float_of_int W * 1 * f2"
    using fmul_factor by blast
  obtain f3 where f3: "within_ulps 1 f3" "float_of_int H = of_int H * f3"
    using float_of_int_factor by blast
  define ratio0 where "ratio0 = fdiv (fmul (float_of_int W) 1) (float_of_int H)"
  obtain f4 where f4: "within_ulps 1 f4"
    "ratio0 = fmul (float_of_int W) 1 / float_of_int H * f4"
    unfolding ratio0_def using fdiv_factor by blast
  define R where "R = f1 * f2 / f3 * f4"
  have R: "within_ulps 4 R"
    using within_ulps_mult [OF within_ulps_divide [OF within_ulps_mult [OF f1(1) f2(1)] f3(1)] f4(1)]
    by (simp add: R_def eval_nat_numeral)
  have Rp: "0 < R" using R by (rule within_ulps_pos)
  have f3p: "0 < f3" using f3(1) by (rule within_ulps_pos)
  have Hnz: "float_of_int H \<noteq> 0" using Hp f3p by (simp add: f3(2))
  have rho': "\<rho> = of_int W / of_int H" by (simp only: rho W_def H_def)
  have "ratio0 = float_of_int W * 1 * f2 / float_of_int H * f4"
    by (simp only: f4(2) f2(2))
  hence r0: "ratio0 = \<rho> * R"
    by (simp add: f1(2) f3(2) R_def rho')
  define ratio where "ratio = (if state s = DRAG_TR \<or> state s = DRAG_BL then - ratio0 else ratio0)"
  have rt: "ratio = \<sigma> * R" by (simp add: ratio_def r0 sg)
  have rnz: "ratio \<noteq> 0" using nz Rp by (simp add: rt)
  obtain f5 where f5: "within_ulps 1 f5" "float_of_int dx = of_int dx * f5"
    using float_of_int_factor by blast
  obtain f6 where f6: "within_ulps 1 f6" "fdiv (float_of_int dx) ratio = float_of_int dx / ratio * f6"
    using fdiv_factor by blast
  define F where "F = f5 / R * f6"
  have F: "within_ulps 6 F"
    using within_ulps_mult [OF within_ulps_divide [OF f5(1) R] f6(1)] by (simp add: F_def eval_nat_numeral)
  have q: "fdiv (float_of_int dx) ratio = (of_int dx / \<sigma>) * F"
    unfolding f6(2) by (simp add: f5(2) rt F_def)
  obtain f7 where f7: "within_ulps 1 f7" "float_of_int dy = of_int dy * f7"
    using float_of_int_factor by blast
  obtain f8 where f8: "within_ulps 1 f8" "fmul (float_of_int dy) ratio = float_of_int dy * ratio * f8"
    using fmul_factor by blast
  define G where "G = f7 * R * f8"
  have G: "within_ulps 6 G"
    using within_ulps_mult [OF within_ulps_mult [OF f7(1) R] f8(1)] by (simp add: G_def eval_nat_numeral)
  have p: "fmul (float_of_int dy) ratio = (of_int dy * \<sigma>) * G"
    unfolding f8(2) by (simp add: f7(2) rt G_def)
  have Hnz': "float_of_int (b0 s - t0 s) \<noteq> 0" using Hnz unfolding H_def .
  have "ratio0 \<noteq> 0" using pos Rp by (simp add: r0)
  hence r0nz: "fdiv (fmul (float_of_int (r0 s - l0 s)) 1) (float_of_int (b0 s - t0 s)) \<noteq> 0"
    unfolding ratio0_def W_def H_def .
  have eq: "drag_deltas s x y =
      (if \<bar>fdiv (float_of_int dx) ratio\<bar> > \<bar>of_int dy :: rat\<bar>
       then Inr (dx, py_round (fdiv (float_of_int dx) ratio))
       else Inr (py_round (fmul (float_of_int dy) ratio), dy))"
    using assms(1) Hnz' r0nz
    by (simp add: drag_deltas_def Let_def dx_def dy_def ratio_def ratio0_def W_def H_def)
  show ?thesis
  proof (cases "\<bar>fdiv (float_of_int dx) ratio\<bar> > \<bar>of_int dy :: rat\<bar>")
    case True
    hence "drag_deltas s x y = Inr (dx, py_round ((of_int dx / \<sigma>) * F))" by (simp add: eq q)
    moreover have "\<bar>of_int (py_round ((of_int dx / \<sigma>) * F)) - of_int dx / \<sigma>\<bar>
                    \<le> 1 / 2 + \<bar>of_int dx / \<sigma>\<bar> / 2 ^ 49"
      using F by (rule rounded_near)
    ultimately show ?thesis by blast
  next
    case False
    hence "drag_deltas s x y = Inr (py_round ((of_int dy * \<sigma>) * G), dy)" by (simp add: eq p)
    moreover have "\<bar>of_int (py_round ((of_int dy * \<sigma>) * G)) - of_int dy * \<sigma>\<bar>
                    \<le> 1 / 2 + \<bar>of_int dy * \<sigma>\<bar> / 2 ^ 49"
      using G by (rule rounded_near)
    ultimately show ?thesis by blast
  qed
qed


lemma py_round_of_int: "py_round (of_int n) = n"
  by (simp add: py_round_def)

lemma ratio_kept_delta:
  assumes "0 < w0" "0 < h0" and rho: "\<rho> = (of_int w0 :: rat) / of_int h0"
    and near: "\<bar>of_int c - of_int a / \<rho>\<bar> \<le> 1 / 2 + \<bar>of_int a / \<rho>\<bar> / 2 ^ 49
             \<or> \<bar>of_int a - of_int c * \<rho>\<bar> \<le> 1 / 2 + \<bar>of_int c * \<rho>\<bar> / 2 ^ 49"
  shows "ratio_kept w0 h0 (w0 + a) (h0 + c)"
proof -
  have w: "(of_int w0 :: rat) \<noteq> 0" and hh: "(of_int h0 :: rat) \<noteq> 0" using assms(1,2) by simp_all
  have 1: "of_int w0 / \<rho> = (of_int h0 :: rat)" using w hh by (simp add: rho)
  have 2: "of_int h0 * \<rho> = (of_int w0 :: rat)" using w hh by (simp add: rho)
  have a: "of_int (h0 + c) - of_int (w0 + a) / \<rho> = of_int c - of_int a / \<rho>"
    by (simp add: add_divide_distrib 1)
  have b: "of_int (w0 + a) - of_int (h0 + c) * \<rho> = of_int a - of_int c * \<rho>"
    by (simp add: distrib_right 2)
  have c: "w0 + a - w0 = a" "h0 + c - h0 = c" by simp_all
  from near show ?thesis
    unfolding ratio_kept_def Let_def rho [symmetric] a b c by blast
qed

lemma fix_interval_on_grid:
  assumes r: "0 < r" and le: "a \<le> b" and a: "0 \<le> a" and g: "on_grid lm r reverse a"
  shows "fix_interval a b lm r reverse = Inr (a, b)"
proof (cases reverse)
  case False
  with g have "r dvd a" by (simp add: on_grid_def)
  hence "(a div r) * r = a" by simp
  with False r le show ?thesis by (simp add: fix_interval_def Let_def min_def max_def)
next
  case True
  with g have "r dvd (lm - a)" by (simp add: on_grid_def)
  with r have "(((lm - a) + r - 1) div r) * r = lm - a" by (rule aligned_div_mult)
  with True r le a show ?thesis by (simp add: fix_interval_def Let_def min_def max_def)
qed

lemma set_crop_on_grid:
  assumes "0 < round_x s" "0 < round_y s" "0 \<le> t" "t \<le> b" "0 \<le> l" "l \<le> r"
    and "candidates_on_grid s (t, l, r, b)"
  shows "set_crop s t l r b = Inr (s\<lparr>top_edge := t, bottom := b, left := l, right := r\<rparr>)"
  using assms by (simp add: set_crop_def candidates_on_grid_def fix_interval_on_grid Let_def)

lemma drag_continue_unclamped:
  assumes "drag_deltas s x y = Inr (dx, dy)"
    and "drag_candidates s dx dy = (ct, cl, cr, cb)"
    and "drag_clamp s (ct, cl, cr, cb) = (ct, cl, cr, cb)"
    and "0 < round_x s" "0 < round_y s" "0 \<le> ct" "ct \<le> cb" "0 \<le> cl" "cl \<le> cr"
    and "candidates_on_grid s (ct, cl, cr, cb)"
  shows "drag_continue s x y = Inr (s\<lparr>top_edge := ct, bottom := cb, left := cl, right := cr\<rparr>)"
  using assms by (simp add: drag_continue_def set_crop_on_grid)

lemma drag_clamp_fixed_ordered:
  assumes fixp: "drag_clamp s (ct, cl, cr, cb) = (ct, cl, cr, cb)" and nc: "state s \<noteq> DRAG_C"
    and rect: "0 \<le> top_edge s" "top_edge s < bottom s" "0 \<le> left s" "left s < right s"
  shows "(ct = top_edge s \<or> cb = bottom s \<longrightarrow> 0 \<le> ct \<and> ct \<le> cb)
       \<and> (cl = left s \<or> cr = right s \<longrightarrow> 0 \<le> cl \<and> cl \<le> cr)"
proof -
  from fixp nc have
    t: "ct = min (bottom s - 1) (if ct < 0 then 0 else ct)" and
    l: "cl = min (right s - 1) (if cl < 0 then 0 else cl)" and
    r: "cr = max (left s + 1) (if cr \<ge> w s then w s - 1 else cr)" and
    b: "cb = max (top_edge s + 1) (if cb \<ge> h s then h s - 1 else cb)"
    by (simp_all add: drag_clamp_def Let_def)
  have t0: "0 \<le> ct" and t1: "ct \<le> bottom s - 1" using t rect(1,2) by (auto split: if_splits)
  have b1: "top_edge s + 1 \<le> cb" using b by (auto split: if_splits)
  have l0: "0 \<le> cl" and l1: "cl \<le> right s - 1" using l rect(3,4) by (auto split: if_splits)
  have r1: "left s + 1 \<le> cr" using r by (auto split: if_splits)
  from t0 t1 b1 l0 l1 r1 show ?thesis by auto
qed

lemma near_flip:
  fixes \<rho> :: rat
  shows "\<bar>of_int (- c) - of_int (- a) / \<rho>\<bar> = \<bar>of_int c - of_int a / \<rho>\<bar>"
    and "\<bar>of_int (- a) - of_int (- c) * \<rho>\<bar> = \<bar>of_int a - of_int c * \<rho>\<bar>"
    and "\<bar>of_int (- c) - of_int a / \<rho>\<bar> = \<bar>of_int c - of_int a / (- \<rho>)\<bar>"
    and "\<bar>of_int a - of_int (- c) * \<rho>\<bar> = \<bar>of_int a - of_int c * (- \<rho>)\<bar>"
    and "\<bar>of_int c - of_int (- a) / \<rho>\<bar> = \<bar>of_int c - of_int a / (- \<rho>)\<bar>"
    and "\<bar>of_int (- a) - of_int c * \<rho>\<bar> = \<bar>of_int a - of_int c * (- \<rho>)\<bar>"
    and "\<bar>of_int (- a) / \<rho>\<bar> = \<bar>of_int a / \<rho>\<bar>"
    and "\<bar>of_int (- c) * \<rho>\<bar> = \<bar>of_int c * \<rho>\<bar>"
    and "\<bar>of_int a / (- \<rho>)\<bar> = \<bar>of_int a / \<rho>\<bar>"
    and "\<bar>of_int c * (- \<rho>)\<bar> = \<bar>of_int c * \<rho>\<bar>"
  by (simp_all add: abs_eq_iff)

lemma float_examples:
  "float_of_int 20 = 20" "fmul 20 1 = 20" "fdiv 20 20 = 1"
  "float_of_int (- 10) = - 10" "fdiv (- 10) 1 = - 10"
  "float_of_int 40 = 40" "fmul 40 1 = 40" "fdiv 40 20 = 2"
  "float_of_int 5 = 5" "fdiv 5 2 = 5 / 2" "py_round (5 / 2) = 2"
  by code_simp+

lemma drag_start_top_left:
  "drag_start (manager_photo 5 50 70 25) 51 6 True
     = Inr ((manager_photo 5 50 70 25)\<lparr>x0 := 51, y0 := 6, t0 := 5, l0 := 50, r0 := 70, b0 := 25,
                      state := DRAG_TL, fixed_ratio := True\<rparr>)"
  by (simp add: drag_start_def classify_def get_screencorners_def get_corners_def py_int_def
        manager_photo_def manager0_def Let_def)

text \<open>
  C2 (counterexample). A 20 by 20 rectangle at top 5, left 50 of a 100 by 100 image,
  dragged by its top-left corner with the ratio locked, the pointer moving 10 pixels to
  the left: the derived vertical delta is also 10, the top edge is stopped at 0 by line
  436, and the committed rectangle is 30 wide and 25 high.
\<close>

theorem drag_continue_locked_ratio_lost:
  "drag_start (manager_photo 5 50 70 25) 51 6 True
     = Inr ((manager_photo 5 50 70 25)\<lparr>x0 := 51, y0 := 6, t0 := 5, l0 := 50, r0 := 70, b0 := 25,
                      state := DRAG_TL, fixed_ratio := True\<rparr>)
   \<and> raised (drag_continue (state_of (drag_start (manager_photo 5 50 70 25) 51 6 True)) 41 6) = None
   \<and> get_corners (state_of (drag_continue
         (state_of (drag_start (manager_photo 5 50 70 25) 51 6 True)) 41 6)) = (0, 40, 70, 25)
   \<and> \<not> ratio_kept (70 - 50) (25 - 5) (70 - 40) (25 - 0)"
proof -
  define S where "S = state_of (drag_start (manager_photo 5 50 70 25) 51 6 True)"
  have S: "S = (manager_photo 5 50 70 25)\<lparr>x0 := 51, y0 := 6, t0 := 5, l0 := 50, r0 := 70, b0 := 25,
                      state := DRAG_TL, fixed_ratio := True\<rparr>"
    by (simp add: S_def drag_start_top_left state_of_def)
  have f: "w S = 100" "h S = 100" "round_x S = 1" "round_y S = 1" "rotation S = 1"
    "top_edge S = 5" "left S = 50" "right S = 70" "bottom S = 25" "scale S = 1"
    "x0 S = 51" "y0 S = 6" "t0 S = 5" "l0 S = 50" "r0 S = 70" "b0 S = 25"
    "state S = DRAG_TL" "fixed_ratio S = True"
    by (simp_all add: S manager_photo_def manager0_def)
  have d: "drag_deltas S 41 6 = Inr (- 10, - 10)"
    using py_round_of_int [of "- 10"] by (simp add: drag_deltas_def f Let_def float_examples)
  have c: "drag_candidates S (- 10) (- 10) = (- 5, 40, 70, 25)"
    by (simp add: drag_candidates_def get_corners_def f Let_def)
  have k: "drag_clamp S (- 5, 40, 70, 25) = (0, 40, 70, 25)"
    by (simp add: drag_clamp_def f Let_def)
  have sc: "set_crop S 0 40 70 25 = Inr (S\<lparr>top_edge := 0, bottom := 25, left := 40, right := 70\<rparr>)"
    by (simp add: set_crop_def fix_interval_def f Let_def)
  have "drag_continue S 41 6 = Inr (S\<lparr>top_edge := 0, bottom := 25, left := 40, right := 70\<rparr>)"
    by (simp add: drag_continue_def d c k sc)
  hence "raised (drag_continue S 41 6) = None"
    "get_corners (state_of (drag_continue S 41 6)) = (0, 40, 70, 25)"
    by (simp_all add: raised_def state_of_def get_corners_def)
  moreover have "\<not> ratio_kept (70 - 50) (25 - 5) (70 - 40) (25 - 0)"
    by (simp add: ratio_kept_def Let_def)
  ultimately show ?thesis using drag_start_top_left unfolding S_def by simp
qed

text \<open>
  The alignment of \<^verbatim>\<open>set_crop\<close> loses the ratio as well: on an image with 16 by 8
  blocks, a 32 by 32 selection at top 16, left 16, dragged by its top-left corner by
  \<open>(-3, -3)\<close> with the ratio locked, has the candidate edges top 13 and left 13, which
  no clamp changes; \<^verbatim>\<open>fix\<close> moves them to 8 and 0, and the committed rectangle is 48
  wide and 40 high.
\<close>

lemma float_examples_unit:
  "float_of_int 32 = 32" "fmul 32 1 = 32" "fdiv 32 32 = 1"
  "float_of_int (- 3) = - 3" "fdiv (- 3) 1 = - 3" "fmul (- 3) 1 = - 3"
  by code_simp+

lemma drag_continue_locked_ratio_lost_by_alignment:
  "drag_clamp (state_of (drag_start (manager_jpeg\<lparr>top_edge := 16, left := 16, right := 48, bottom := 48\<rparr>) 17 17 True))
       (drag_candidates (state_of (drag_start (manager_jpeg\<lparr>top_edge := 16, left := 16, right := 48, bottom := 48\<rparr>) 17 17 True)) (- 3) (- 3))
     = (13, 13, 48, 48)
   \<and> drag_candidates (state_of (drag_start (manager_jpeg\<lparr>top_edge := 16, left := 16, right := 48, bottom := 48\<rparr>) 17 17 True)) (- 3) (- 3)
     = (13, 13, 48, 48)
   \<and> get_corners (state_of (drag_continue
         (state_of (drag_start (manager_jpeg\<lparr>top_edge := 16, left := 16, right := 48, bottom := 48\<rparr>) 17 17 True)) 14 14))
     = (8, 0, 48, 48)
   \<and> \<not> ratio_kept (48 - 16) (48 - 16) (48 - 0) (48 - 8)"
proof -
  define M where "M = manager_jpeg\<lparr>top_edge := 16, left := 16, right := 48, bottom := 48\<rparr>"
  have st: "drag_start M 17 17 True
     = Inr (M\<lparr>x0 := 17, y0 := 17, t0 := 16, l0 := 16, r0 := 48, b0 := 48,
               state := DRAG_TL, fixed_ratio := True\<rparr>)"
    by (simp add: M_def drag_start_def classify_def get_screencorners_def get_corners_def py_int_def
        manager_jpeg_def manager0_def Let_def)
  define S where "S = state_of (drag_start M 17 17 True)"
  have S: "S = M\<lparr>x0 := 17, y0 := 17, t0 := 16, l0 := 16, r0 := 48, b0 := 48,
                 state := DRAG_TL, fixed_ratio := True\<rparr>"
    by (simp add: S_def st state_of_def)
  have f: "w S = 100" "h S = 60" "round_x S = 16" "round_y S = 8" "rotation S = 1"
    "top_edge S = 16" "left S = 16" "right S = 48" "bottom S = 48" "scale S = 1"
    "x0 S = 17" "y0 S = 17" "t0 S = 16" "l0 S = 16" "r0 S = 48" "b0 S = 48"
    "state S = DRAG_TL" "fixed_ratio S = True"
    by (simp_all add: S M_def manager_jpeg_def manager0_def)
  have d: "drag_deltas S 14 14 = Inr (- 3, - 3)"
    using py_round_of_int [of "- 3"] by (simp add: drag_deltas_def f Let_def float_examples_unit)
  have c: "drag_candidates S (- 3) (- 3) = (13, 13, 48, 48)"
    by (simp add: drag_candidates_def get_corners_def f Let_def)
  have k: "drag_clamp S (13, 13, 48, 48) = (13, 13, 48, 48)"
    by (simp add: drag_clamp_def f Let_def)
  have sc: "set_crop S 13 13 48 48 = Inr (S\<lparr>top_edge := 8, bottom := 48, left := 0, right := 48\<rparr>)"
    by (simp add: set_crop_def fix_interval_def f Let_def)
  have "drag_continue S 14 14 = Inr (S\<lparr>top_edge := 8, bottom := 48, left := 0, right := 48\<rparr>)"
    by (simp add: drag_continue_def d c k sc)
  hence "get_corners (state_of (drag_continue S 14 14)) = (8, 0, 48, 48)"
    by (simp add: state_of_def get_corners_def)
  moreover have "\<not> ratio_kept (48 - 16) (48 - 16) (48 - 0) (48 - 8)"
    by (simp add: ratio_kept_def Let_def)
  ultimately show ?thesis using c k unfolding S_def M_def by simp
qed

text \<open>
  C2 (amended). In a corner drag with the ratio locked, from a snapshot with positive
  width and height, \<^verbatim>\<open>drag_continue\<close> commits the candidate rectangle, whose width
  and height are in the ratio of the snapshot within rounding (the half pixel of
  \<^verbatim>\<open>round\<close> and the relative error of the double arithmetic on the derived axis),
  for every pointer position at which neither clamping pass changes a candidate edge
  and the alignment of \<^verbatim>\<open>set_crop\<close> moves neither the top nor the left candidate
  edge, when the granularities are positive and the two edges that the drag does not
  move are where they were at \<^verbatim>\<open>drag_start\<close>. The snapshot and the deltas are in the
  range where \<open>fl\<close> is the arithmetic of the doubles.
\<close>

theorem drag_continue_locked_ratio:
  assumes corner: "state s \<in> {DRAG_TL, DRAG_TR, DRAG_BL, DRAG_BR}" and locked: "fixed_ratio s"
    and snap: "l0 s < r0 s" "t0 s < b0 s"
    and rect: "0 \<le> top_edge s" "top_edge s < bottom s" "0 \<le> left s" "left s < right s"
    and unmoved: "unmoved_at_snapshot s"
    and gran: "0 < round_x s" "0 < round_y s"
    and range: "in_double_range s x y"
    and deltas: "drag_deltas s x y = Inr (dx, dy)"
    and unclamped: "drag_clamp s (drag_candidates s dx dy) = drag_candidates s dx dy"
    and grid: "candidates_on_grid s (drag_candidates s dx dy)"
  shows "raised (drag_continue s x y) = None
       \<and> get_corners (state_of (drag_continue s x y)) = drag_candidates s dx dy
       \<and> ratio_kept (r0 s - l0 s) (b0 s - t0 s)
            (right (state_of (drag_continue s x y)) - left (state_of (drag_continue s x y)))
            (bottom (state_of (drag_continue s x y)) - top_edge (state_of (drag_continue s x y)))"
proof -
  define \<rho> where "\<rho> = (of_int (r0 s - l0 s) :: rat) / of_int (b0 s - t0 s)"
  define \<sigma> where "\<sigma> = (if state s = DRAG_TR \<or> state s = DRAG_BL then - \<rho> else \<rho>)"
  obtain dx' dy' where "drag_deltas s x y = Inr (dx', dy')"
    and "\<bar>of_int dy' - of_int dx' / \<sigma>\<bar> \<le> 1 / 2 + \<bar>of_int dx' / \<sigma>\<bar> / 2 ^ 49
         \<or> \<bar>of_int dx' - of_int dy' * \<sigma>\<bar> \<le> 1 / 2 + \<bar>of_int dy' * \<sigma>\<bar> / 2 ^ 49"
    using drag_deltas_locked [OF locked snap \<rho>_def \<sigma>_def] by blast
  with deltas have near:
    "\<bar>of_int dy - of_int dx / \<sigma>\<bar> \<le> 1 / 2 + \<bar>of_int dx / \<sigma>\<bar> / 2 ^ 49
     \<or> \<bar>of_int dx - of_int dy * \<sigma>\<bar> \<le> 1 / 2 + \<bar>of_int dy * \<sigma>\<bar> / 2 ^ 49"
    by simp
  obtain ct cl cr cb where cand: "drag_candidates s dx dy = (ct, cl, cr, cb)"
    by (metis prod_cases4)
  have fixp: "drag_clamp s (ct, cl, cr, cb) = (ct, cl, cr, cb)" using unclamped cand by simp
  have og: "candidates_on_grid s (ct, cl, cr, cb)" using grid cand by simp
  have nc: "state s \<noteq> DRAG_C" using corner by auto
  have kept: "(ct = top_edge s \<or> cb = bottom s) \<and> (cl = left s \<or> cr = right s)"
    using cand corner
    by (auto simp: drag_candidates_def get_corners_def Let_def)
  have ord: "0 \<le> ct \<and> ct \<le> cb \<and> 0 \<le> cl \<and> cl \<le> cr"
    using drag_clamp_fixed_ordered [OF fixp nc rect] kept by blast
  have res: "drag_continue s x y = Inr (s\<lparr>top_edge := ct, bottom := cb, left := cl, right := cr\<rparr>)"
    using deltas cand fixp gran ord og by (intro drag_continue_unclamped) auto
  have w0: "0 < r0 s - l0 s" and h0: "0 < b0 s - t0 s" using snap by simp_all
  have "\<exists>a c. cr - cl = (r0 s - l0 s) + a \<and> cb - ct = (b0 s - t0 s) + c
          \<and> (\<bar>of_int c - of_int a / \<rho>\<bar> \<le> 1 / 2 + \<bar>of_int a / \<rho>\<bar> / 2 ^ 49
             \<or> \<bar>of_int a - of_int c * \<rho>\<bar> \<le> 1 / 2 + \<bar>of_int c * \<rho>\<bar> / 2 ^ 49)"
  proof -
    consider "state s = DRAG_TL" | "state s = DRAG_TR" | "state s = DRAG_BL" | "state s = DRAG_BR"
      using corner by auto
    thus ?thesis
    proof cases
      case 1
      hence "ct = t0 s + dy" "cl = l0 s + dx" "cr = r0 s" "cb = b0 s"
        using cand unmoved by (simp_all add: drag_candidates_def get_corners_def unmoved_at_snapshot_def Let_def)
      hence "cr - cl = (r0 s - l0 s) + (- dx)" "cb - ct = (b0 s - t0 s) + (- dy)" by simp_all
      moreover have "\<bar>of_int (- dy) - of_int (- dx) / \<rho>\<bar> \<le> 1 / 2 + \<bar>of_int (- dx) / \<rho>\<bar> / 2 ^ 49
                   \<or> \<bar>of_int (- dx) - of_int (- dy) * \<rho>\<bar> \<le> 1 / 2 + \<bar>of_int (- dy) * \<rho>\<bar> / 2 ^ 49"
        using near 1 by (simp only: near_flip) (simp add: \<sigma>_def)
      ultimately show ?thesis by blast
    next
      case 2
      hence "ct = t0 s + dy" "cl = l0 s" "cr = r0 s + dx" "cb = b0 s"
        using cand unmoved by (simp_all add: drag_candidates_def get_corners_def unmoved_at_snapshot_def Let_def)
      hence "cr - cl = (r0 s - l0 s) + dx" "cb - ct = (b0 s - t0 s) + (- dy)" by simp_all
      moreover have "\<bar>of_int (- dy) - of_int dx / \<rho>\<bar> \<le> 1 / 2 + \<bar>of_int dx / \<rho>\<bar> / 2 ^ 49
                   \<or> \<bar>of_int dx - of_int (- dy) * \<rho>\<bar> \<le> 1 / 2 + \<bar>of_int (- dy) * \<rho>\<bar> / 2 ^ 49"
        using near 2 by (simp only: near_flip) (simp add: \<sigma>_def)
      ultimately show ?thesis by blast
    next
      case 3
      hence "ct = t0 s" "cl = l0 s + dx" "cr = r0 s" "cb = b0 s + dy"
        using cand unmoved by (simp_all add: drag_candidates_def get_corners_def unmoved_at_snapshot_def Let_def)
      hence "cr - cl = (r0 s - l0 s) + (- dx)" "cb - ct = (b0 s - t0 s) + dy" by simp_all
      moreover have "\<bar>of_int dy - of_int (- dx) / \<rho>\<bar> \<le> 1 / 2 + \<bar>of_int (- dx) / \<rho>\<bar> / 2 ^ 49
                   \<or> \<bar>of_int (- dx) - of_int dy * \<rho>\<bar> \<le> 1 / 2 + \<bar>of_int dy * \<rho>\<bar> / 2 ^ 49"
        using near 3 by (simp only: near_flip) (simp add: \<sigma>_def)
      ultimately show ?thesis by blast
    next
      case 4
      hence "ct = t0 s" "cl = l0 s" "cr = r0 s + dx" "cb = b0 s + dy"
        using cand unmoved by (simp_all add: drag_candidates_def get_corners_def unmoved_at_snapshot_def Let_def)
      hence "cr - cl = (r0 s - l0 s) + dx" "cb - ct = (b0 s - t0 s) + dy" by simp_all
      moreover have "\<bar>of_int dy - of_int dx / \<rho>\<bar> \<le> 1 / 2 + \<bar>of_int dx / \<rho>\<bar> / 2 ^ 49
                   \<or> \<bar>of_int dx - of_int dy * \<rho>\<bar> \<le> 1 / 2 + \<bar>of_int dy * \<rho>\<bar> / 2 ^ 49"
        using near 4 by (simp add: \<sigma>_def)
      ultimately show ?thesis by blast
    qed
  qed
  then obtain a c where ac: "cr - cl = (r0 s - l0 s) + a" "cb - ct = (b0 s - t0 s) + c"
    "\<bar>of_int c - of_int a / \<rho>\<bar> \<le> 1 / 2 + \<bar>of_int a / \<rho>\<bar> / 2 ^ 49
     \<or> \<bar>of_int a - of_int c * \<rho>\<bar> \<le> 1 / 2 + \<bar>of_int c * \<rho>\<bar> / 2 ^ 49"
    by blast
  have "ratio_kept (r0 s - l0 s) (b0 s - t0 s) ((r0 s - l0 s) + a) ((b0 s - t0 s) + c)"
    using w0 h0 \<rho>_def ac(3) by (rule ratio_kept_delta)
  hence "ratio_kept (r0 s - l0 s) (b0 s - t0 s) (cr - cl) (cb - ct)"
    by (simp only: ac(1,2))
  thus ?thesis by (simp add: res raised_def state_of_def get_corners_def cand)
qed

lemma drag_start_bottom_right:
  "drag_start (manager_photo 20 20 60 40) 59 39 True
     = Inr ((manager_photo 20 20 60 40)\<lparr>x0 := 59, y0 := 39, t0 := 20, l0 := 20, r0 := 60, b0 := 40,
                      state := DRAG_BR, fixed_ratio := True\<rparr>)"
  by (simp add: drag_start_def classify_def get_screencorners_def get_corners_def py_int_def
        manager_photo_def manager0_def Let_def)

theorem drag_continue_locked_ratio_witness:
  "get_corners (state_of (drag_continue
      (state_of (drag_start (manager_photo 20 20 60 40) 59 39 True)) 64 39)) = (20, 20, 65, 42)
   \<and> ratio_kept (60 - 20) (40 - 20) (65 - 20) (42 - 20)"
proof -
  define S where "S = state_of (drag_start (manager_photo 20 20 60 40) 59 39 True)"
  have S: "S = (manager_photo 20 20 60 40)\<lparr>x0 := 59, y0 := 39, t0 := 20, l0 := 20, r0 := 60, b0 := 40,
                      state := DRAG_BR, fixed_ratio := True\<rparr>"
    by (simp add: S_def drag_start_bottom_right state_of_def)
  have f: "w S = 100" "h S = 100" "round_x S = 1" "round_y S = 1" "rotation S = 1"
    "top_edge S = 20" "left S = 20" "right S = 60" "bottom S = 40" "scale S = 1"
    "x0 S = 59" "y0 S = 39" "t0 S = 20" "l0 S = 20" "r0 S = 60" "b0 S = 40"
    "state S = DRAG_BR" "fixed_ratio S = True"
    by (simp_all add: S manager_photo_def manager0_def)
  have d: "drag_deltas S 64 39 = Inr (5, 2)"
    by (simp add: drag_deltas_def f Let_def float_examples)
  have c: "drag_candidates S 5 2 = (20, 20, 65, 42)"
    by (simp add: drag_candidates_def get_corners_def f Let_def)
  have k: "drag_clamp S (drag_candidates S 5 2) = drag_candidates S 5 2"
    by (simp add: c drag_clamp_def f Let_def)
  have g: "candidates_on_grid S (drag_candidates S 5 2)"
    by (simp add: c candidates_on_grid_def on_grid_def f)
  have u: "unmoved_at_snapshot S"
    by (simp add: unmoved_at_snapshot_def f)
  have rg: "in_double_range S 64 39"
    by (simp add: in_double_range_def f)
  have "raised (drag_continue S 64 39) = None
       \<and> get_corners (state_of (drag_continue S 64 39)) = drag_candidates S 5 2
       \<and> ratio_kept (r0 S - l0 S) (b0 S - t0 S)
            (right (state_of (drag_continue S 64 39)) - left (state_of (drag_continue S 64 39)))
            (bottom (state_of (drag_continue S 64 39)) - top_edge (state_of (drag_continue S 64 39)))"
    by (rule drag_continue_locked_ratio [OF _ _ _ _ _ _ _ _ u _ _ rg d k g]) (simp_all add: f)
  moreover from this have "right (state_of (drag_continue S 64 39)) = 65"
    "left (state_of (drag_continue S 64 39)) = 20" "bottom (state_of (drag_continue S 64 39)) = 42"
    "top_edge (state_of (drag_continue S 64 39)) = 20"
    by (simp_all add: c get_corners_def)
  ultimately show ?thesis unfolding S_def [symmetric] by (simp add: f c)
qed


text \<open>
  The double arithmetic is visible on a 17 by 7 snapshot dragged by its bottom-right
  corner, the pointer moving by \<open>(-17, +7)\<close>: \<^verbatim>\<open>17 * 1. / 7\<close> is rounded down, the
  quotient \<^verbatim>\<open>-17 / ratio\<close> is the double just beyond \<open>-7\<close> (in exact arithmetic it
  is \<open>-7\<close>), so line 412 takes its first branch, the vertical delta becomes \<open>-7\<close>
  and the selection collapses to the one pixel that the clamps of lines 446--449 leave.
\<close>

lemma float_tie_example:
  "float_of_int 7 \<noteq> 0"
  "fdiv (fmul (float_of_int 17) 1) (float_of_int 7) \<noteq> 0"
  "7 < \<bar>fdiv (float_of_int (- 17)) (fdiv (fmul (float_of_int 17) 1) (float_of_int 7))\<bar>"
  "py_round (fdiv (float_of_int (- 17)) (fdiv (fmul (float_of_int 17) 1) (float_of_int 7))) = - 7"
  by code_simp+

lemma drag_start_bottom_right_17_7:
  "drag_start (manager_photo 20 20 37 27) 37 27 True
     = Inr ((manager_photo 20 20 37 27)\<lparr>x0 := 37, y0 := 27, t0 := 20, l0 := 20, r0 := 37, b0 := 27,
                      state := DRAG_BR, fixed_ratio := True\<rparr>)"
  by (simp add: drag_start_def classify_def get_screencorners_def get_corners_def py_int_def
        manager_photo_def manager0_def Let_def)

lemma drag_continue_double_rounding:
  "drag_deltas (state_of (drag_start (manager_photo 20 20 37 27) 37 27 True)) 20 34 = Inr (- 17, - 7)
   \<and> get_corners (state_of (drag_continue
        (state_of (drag_start (manager_photo 20 20 37 27) 37 27 True)) 20 34)) = (20, 20, 21, 21)"
proof -
  define S where "S = state_of (drag_start (manager_photo 20 20 37 27) 37 27 True)"
  have S: "S = (manager_photo 20 20 37 27)\<lparr>x0 := 37, y0 := 27, t0 := 20, l0 := 20, r0 := 37, b0 := 27,
                      state := DRAG_BR, fixed_ratio := True\<rparr>"
    by (simp add: S_def drag_start_bottom_right_17_7 state_of_def)
  have f: "w S = 100" "h S = 100" "round_x S = 1" "round_y S = 1" "rotation S = 1"
    "top_edge S = 20" "left S = 20" "right S = 37" "bottom S = 27" "scale S = 1"
    "x0 S = 37" "y0 S = 27" "t0 S = 20" "l0 S = 20" "r0 S = 37" "b0 S = 27"
    "state S = DRAG_BR" "fixed_ratio S = True"
    by (simp_all add: S manager_photo_def manager0_def)
  have d: "drag_deltas S 20 34 = Inr (- 17, - 7)"
    by (simp add: drag_deltas_def f Let_def float_tie_example)
  have c: "drag_candidates S (- 17) (- 7) = (20, 20, 20, 20)"
    by (simp add: drag_candidates_def get_corners_def f Let_def)
  have k: "drag_clamp S (20, 20, 20, 20) = (20, 20, 21, 21)"
    by (simp add: drag_clamp_def f Let_def)
  have sc: "set_crop S 20 20 21 21 = Inr (S\<lparr>top_edge := 20, bottom := 21, left := 20, right := 21\<rparr>)"
    by (simp add: set_crop_def fix_interval_def f Let_def)
  have "drag_continue S 20 34 = Inr (S\<lparr>top_edge := 20, bottom := 21, left := 20, right := 21\<rparr>)"
    by (simp add: drag_continue_def d c k sc)
  hence "get_corners (state_of (drag_continue S 20 34)) = (20, 20, 21, 21)"
    by (simp add: state_of_def get_corners_def)
  with d show ?thesis unfolding S_def by simp
qed

end
